theory Spec2Isabelle
  imports Main "HOL-Library.Word"
begin

unbundle bit_operations_syntax

section \<open>The pool allocator of Core/Memory/poolAllocator.h\<close>

text \<open>
  The class \<^verbatim>\<open>poolAllocator<TYPE>\<close> hands out fixed-size blocks from up to 256 puddles
  of 256 blocks each. Free blocks form a forward-linked stack whose links are 32-bit
  tags \<^verbatim>\<open>[16 bit counter | 8 bit puddle index | 8 bit element index]\<close>.

  The embedding is sequential: it follows the \<^verbatim>\<open>#else\<close> branches of
  \<^verbatim>\<open>ORYOL_HAS_ATOMIC\<close>. Without interference the atomic branches do the same (a
  compare-exchange that sees the value just loaded installs the new one), so the retry
  loops of \<^verbatim>\<open>push\<close> and \<^verbatim>\<open>pop\<close> run their body once.

  Addresses are natural numbers. The heap maps the address of a node header to the
  header stored there; the payload that follows a header (the \<^verbatim>\<open>TYPE\<close> object, and the
  debug fill patterns written into it) is not part of the model. An access to an address
  that holds no header is undefined in C++ and is the error \<open>InvalidAccess\<close> here; a
  failing \<^verbatim>\<open>o_assert\<close> is the error \<open>AssertFailed\<close>.
\<close>

subsection \<open>Data\<close>

datatype nodeState = init | free | used

type_synonym nodeTag = "32 word"

definition invalidTag :: nodeTag where
  "invalidTag = 0xFFFFFFFF"

record node =
  "next" :: nodeTag
  myTag :: nodeTag
  state :: nodeState

definition MaxNumPuddles :: "32 word" where
  "MaxNumPuddles = 256"

definition NumPuddleElements :: "32 word" where
  "NumPuddleElements = 256"

text \<open>\<^verbatim>\<open>sizeof(node)\<close>, fixed to 16 by the \<^verbatim>\<open>static_assert\<close> of the constructor.\<close>

definition sizeof_node :: nat where
  "sizeof_node = 16"

text \<open>
  The members of the class, and the heap the node pointers point into. \<open>elmSize\<close> is
  the \<^verbatim>\<open>int32_t\<close> member as its 32 bits (\<open>sint\<close> reads it); \<open>puddles\<close> is the array of
  256 puddle pointers, 0 the null pointer. It is indexed only below 256: by the 8-bit
  puddle index of a tag, by the asserted index of \<^verbatim>\<open>allocPuddle\<close> and by the loop of
  \<^verbatim>\<open>isOwned\<close>.
\<close>

record poolAllocator =
  elmSize :: "32 word"
  uniqueCount :: "32 word"
  head :: nodeTag
  numPuddles :: "32 word"
  puddles :: "nat \<Rightarrow> nat"
  heap :: "nat \<Rightarrow> node option"

datatype error = AssertFailed | InvalidAccess

subsection \<open>Construction\<close>

text \<open>
  Modelled from the spec: \<^verbatim>\<open>Memory::RoundUp\<close> is declared in Core/Memory/Memory.h, which
  is not among the sources. The specification writes the stride as
  \<^verbatim>\<open>round_up(sizeof(header) + sizeof(T), 16)\<close>: the value rounded up to the next multiple
  of the second argument.
\<close>

definition RoundUp :: "nat \<Rightarrow> nat \<Rightarrow> nat" where
  "RoundUp val roundTo = ((val + (roundTo - 1)) div roundTo) * roundTo"

text \<open>
  The constructor, for a \<^verbatim>\<open>TYPE\<close> of \<open>sizeofT\<close> bytes. The rounded size is narrowed to
  the \<^verbatim>\<open>int32_t\<close> member; the first assertion masks its low four bits, the second
  compares it, signed, with \<^verbatim>\<open>2*sizeof(node)\<close>. No puddle exists yet, so the heap holds no
  header.
\<close>

definition poolAllocator_new :: "nat \<Rightarrow> error + poolAllocator" where
  "poolAllocator_new sizeofT =
     (let es = (word_of_nat (RoundUp (sizeof_node + sizeofT) sizeof_node) :: 32 word) in
      if es AND (word_of_nat (sizeof_node - 1)) \<noteq> 0 then Inl AssertFailed
      else if \<not> (word_of_nat (2 * sizeof_node) \<le>s es) then Inl AssertFailed
      else Inr \<lparr>elmSize = es, uniqueCount = 0, head = invalidTag, numPuddles = 0,
                puddles = (\<lambda>i. 0), heap = (\<lambda>adr. None)\<rparr>)"

subsection \<open>Tags and addresses\<close>

definition addressFromTag :: "poolAllocator \<Rightarrow> nodeTag \<Rightarrow> nat" where
  "addressFromTag a tag =
     (let elmIndex = tag AND 0xFF;
          puddleIndex = drop_bit 8 (tag AND 0xFF00)
      in puddles a (unat puddleIndex) + unat (elmIndex * elmSize a))"

subsection \<open>The free list\<close>

text \<open>
  \<^verbatim>\<open>push\<close>: both assertions, then the state, the tag with the pre-incremented counter
  in its high half, the link to the old head, and the new head.
\<close>

definition push :: "poolAllocator \<Rightarrow> nat \<Rightarrow> error + poolAllocator" where
  "push a newHead =
     (case heap a newHead of
        None \<Rightarrow> Inl InvalidAccess
      | Some n \<Rightarrow>
          if \<not> (state n = init \<or> state n = used) then Inl AssertFailed
          else if invalidTag \<noteq> next n then Inl AssertFailed
          else
            let uc = uniqueCount a + 1;
                tag = (myTag n AND 0x0000FFFF) OR push_bit 16 (uc AND 0xFFFF);
                oldHeadTag = head a
            in Inr (a\<lparr>uniqueCount := uc, head := tag,
                      heap := (heap a)(newHead := Some \<lparr>next = oldHeadTag, myTag = tag, state = free\<rparr>)\<rparr>))"

text \<open>
  \<^verbatim>\<open>pop\<close>: the null pointer is \<open>None\<close>. The head moves to the link of the block it
  names before the two assertions are made.
\<close>

definition pop :: "poolAllocator \<Rightarrow> error + (poolAllocator \<times> nat option)" where
  "pop a =
     (let oldHeadTag = head a in
      if invalidTag = oldHeadTag then Inr (a, None)
      else
        case heap a (addressFromTag a oldHeadTag) of
          None \<Rightarrow> Inl InvalidAccess
        | Some hn \<Rightarrow>
            let newHeadTag = next hn;
                a1 = a\<lparr>head := newHeadTag\<rparr>;
                nodePtr = addressFromTag a1 oldHeadTag
            in if \<not> (invalidTag \<noteq> oldHeadTag) then Inl AssertFailed
               else if free \<noteq> state hn then Inl AssertFailed
               else Inr (a1\<lparr>heap := (heap a1)(nodePtr := Some (hn\<lparr>next := invalidTag, state := used\<rparr>))\<rparr>,
                         Some nodePtr))"

subsection \<open>Puddles\<close>

text \<open>
  \<^verbatim>\<open>Memory::Clear\<close> on a fresh puddle: no header is left in its byte range until the
  loop of \<^verbatim>\<open>allocPuddle\<close> writes one.
\<close>

definition memClear :: "(nat \<Rightarrow> node option) \<Rightarrow> nat \<Rightarrow> nat \<Rightarrow> (nat \<Rightarrow> node option)" where
  "memClear h ptr numBytes = (\<lambda>adr. if ptr \<le> adr \<and> adr < ptr + numBytes then None else h adr)"

text \<open>
  The loop of \<^verbatim>\<open>allocPuddle\<close>, \<^verbatim>\<open>for (elmIndex = 255; elmIndex >= 0; elmIndex--)\<close>. The
  counter of the recursion is \<open>elmIndex + 1\<close>. The offset \<^verbatim>\<open>elmIndex * elmSize\<close> is a
  product of two 32-bit integers: signed here, unsigned in \<^verbatim>\<open>addressFromTag\<close>. The two
  agree, and equal the product of the numbers, while the stride is at most \<open>2 ^ 23\<close>
  bytes, which the theorems about puddles assume.
\<close>

fun populate :: "poolAllocator \<Rightarrow> 32 word \<Rightarrow> nat \<Rightarrow> error + poolAllocator" where
  "populate a newPuddleIndex 0 = Inr a"
| "populate a newPuddleIndex (Suc elmIndex) =
     (let ptr = puddles a (unat newPuddleIndex) + unat (word_of_nat elmIndex * elmSize a);
          a1 = a\<lparr>heap := (heap a)(ptr := Some \<lparr>next = invalidTag,
                   myTag = push_bit 8 newPuddleIndex OR word_of_nat elmIndex,
                   state = init\<rparr>)\<rparr>
      in case push a1 ptr of
           Inl e \<Rightarrow> Inl e
         | Inr a2 \<Rightarrow> populate a2 newPuddleIndex elmIndex)"

text \<open>
  \<^verbatim>\<open>allocPuddle\<close>. \<^verbatim>\<open>Memory::Alloc\<close> belongs to the memory provider, outside the class:
  \<open>memAlloc i\<close> is the address the provider returns for the puddle of index \<open>i\<close>. The
  puddle counter is incremented before the index is asserted.
\<close>

definition allocPuddle :: "(nat \<Rightarrow> nat) \<Rightarrow> poolAllocator \<Rightarrow> error + poolAllocator" where
  "allocPuddle memAlloc a =
     (let newPuddleIndex = numPuddles a;
          a1 = a\<lparr>numPuddles := numPuddles a + 1\<rparr>
      in if \<not> (newPuddleIndex < MaxNumPuddles) then Inl AssertFailed
         else
           let puddleByteSize = NumPuddleElements * elmSize a1;
               base = memAlloc (unat newPuddleIndex);
               a2 = a1\<lparr>puddles := (puddles a1)(unat newPuddleIndex := base)\<rparr>;
               a3 = a2\<lparr>heap := memClear (heap a2) base (unat puddleByteSize)\<rparr>
           in populate a3 newPuddleIndex (unat NumPuddleElements))"

subsection \<open>The public surface\<close>

text \<open>
  \<^verbatim>\<open>Create\<close> returns the address behind the header of the popped node,
  \<^verbatim>\<open>(void*)(n + 1)\<close>. The construction of the object in the payload is not modelled.
\<close>

definition Create :: "(nat \<Rightarrow> nat) \<Rightarrow> poolAllocator \<Rightarrow> error + (poolAllocator \<times> nat)" where
  "Create memAlloc a =
     (case pop a of
        Inl e \<Rightarrow> Inl e
      | Inr (a1, Some n) \<Rightarrow> Inr (a1, n + sizeof_node)
      | Inr (a1, None) \<Rightarrow>
          (case allocPuddle memAlloc a1 of
             Inl e \<Rightarrow> Inl e
           | Inr a2 \<Rightarrow>
               (case pop a2 of
                  Inl e \<Rightarrow> Inl e
                | Inr (a3, None) \<Rightarrow> Inl AssertFailed
                | Inr (a3, Some n) \<Rightarrow> Inr (a3, n + sizeof_node))))"

text \<open>The loop of \<^verbatim>\<open>isOwned\<close> from index \<open>i\<close> on, with its early return.\<close>

function isOwned_from :: "poolAllocator \<Rightarrow> nat \<Rightarrow> nat \<Rightarrow> nat \<Rightarrow> bool" where
  "isOwned_from a obj num i =
     (if i < num then
        (let start = puddles a i;
             endp = puddles a i + unat (NumPuddleElements * elmSize a);
             ptr = obj
         in if ptr \<ge> start \<and> ptr < endp then True
            else isOwned_from a obj num (Suc i))
      else False)"
  by pat_completeness auto
termination
  by (relation "measure (\<lambda>(a, obj, num, i). num - i)") auto

declare isOwned_from.simps [simp del]

definition isOwned :: "poolAllocator \<Rightarrow> nat \<Rightarrow> bool" where
  "isOwned a obj = isOwned_from a obj (unat (numPuddles a)) 0"

text \<open>
  \<^verbatim>\<open>Destroy\<close>. \<open>dbg\<close> is the compile-time switch \<^verbatim>\<open>ORYOL_ALLOCATOR_DEBUG\<close>. The node is
  the header in front of the object, \<^verbatim>\<open>((node*)obj) - 1\<close>; an object address below 16 has
  none.
\<close>

definition Destroy :: "bool \<Rightarrow> poolAllocator \<Rightarrow> nat \<Rightarrow> error + poolAllocator" where
  "Destroy dbg a obj =
     (if dbg \<and> \<not> isOwned a obj then Inl AssertFailed
      else if obj < sizeof_node then Inl InvalidAccess
      else push a (obj - sizeof_node))"

subsection \<open>Executions\<close>

text \<open>
  A caller's sequence of calls. Beside the allocator it keeps the pointers that
  \<^verbatim>\<open>Create\<close> has returned and that have not been passed to \<^verbatim>\<open>Destroy\<close> since.
\<close>

datatype call = CallCreate | CallDestroy nat

fun run :: "bool \<Rightarrow> (nat \<Rightarrow> nat) \<Rightarrow> call list \<Rightarrow> poolAllocator \<times> nat list
              \<Rightarrow> error + (poolAllocator \<times> nat list)" where
  "run dbg memAlloc [] st = Inr st"
| "run dbg memAlloc (CallCreate # cs) (a, live) =
     (case Create memAlloc a of
        Inl e \<Rightarrow> Inl e
      | Inr (a', obj) \<Rightarrow> run dbg memAlloc cs (a', obj # live))"
| "run dbg memAlloc (CallDestroy obj # cs) (a, live) =
     (case Destroy dbg a obj of
        Inl e \<Rightarrow> Inl e
      | Inr a' \<Rightarrow> run dbg memAlloc cs (a', remove1 obj live))"

section \<open>Notions used to state the properties\<close>

text \<open>
  Two assumptions about the surroundings of the class recur in the theorems about
  puddles. The stride is at most \<open>2 ^ 23\<close> bytes: up to there every 32-bit product of an
  element index (or of 256) and the stride that the code forms is the product of the
  numbers, so a puddle is as large as its 256 blocks. Where the contents of different
  puddles matter, the memory provider returns byte ranges that do not overlap.
\<close>

text \<open>The 16-bit counter field of a tag, its high half.\<close>

definition generation :: "nodeTag \<Rightarrow> 16 word" where
  "generation tag = ucast (drop_bit 16 tag)"

text \<open>
  The allocator as the constructor leaves it for a \<^verbatim>\<open>TYPE\<close> of 24 bytes: the stride is
  48. It serves as the concrete allocator of the examples.
\<close>

definition alloc48 :: poolAllocator where
  "alloc48 = \<lparr>elmSize = 48, uniqueCount = 0, head = invalidTag, numPuddles = 0,
              puddles = (\<lambda>i. 0), heap = (\<lambda>adr. None)\<rparr>"

text \<open>
  The tag of element \<open>e\<close> of puddle \<open>p\<close> after a \<^verbatim>\<open>push\<close> that raised the counter
  to \<open>c\<close>.
\<close>

definition tagOf :: "nat \<Rightarrow> nat \<Rightarrow> 32 word \<Rightarrow> nodeTag" where
  "tagOf p e c = (push_bit 8 (word_of_nat p) OR word_of_nat e) OR push_bit 16 (take_bit 16 c)"

text \<open>
  The allocator while blocks are taken from its newest puddle \<open>p\<close>, placed at \<open>base\<close>:
  \<open>j\<close> blocks of the puddle have been popped, no block has been destroyed since the
  puddle was filled, and the counter stands at \<open>U\<close>. The elements from \<open>j\<close> on are
  chained in ascending order, the head names element \<open>j\<close>, the elements below \<open>j\<close> are
  in use.
\<close>

definition serving :: "nat \<Rightarrow> poolAllocator \<Rightarrow> nat \<Rightarrow> nat \<Rightarrow> 32 word \<Rightarrow> bool" where
  "serving base a p j U \<longleftrightarrow>
     numPuddles a = word_of_nat (Suc p) \<and> uniqueCount a = U \<and> puddles a p = base
     \<and> tagOf p 255 (U - 255) \<noteq> invalidTag
     \<and> head a = (if j < 256 then tagOf p j (U - word_of_nat j) else invalidTag)
     \<and> (\<forall>e. j \<le> e \<and> e < 256 \<longrightarrow>
            heap a (base + e * unat (elmSize a)) =
              Some \<lparr>next = (if e = 255 then invalidTag else tagOf p (Suc e) (U - word_of_nat (Suc e))),
                    myTag = tagOf p e (U - word_of_nat e), state = free\<rparr>)
     \<and> (\<forall>e<j. heap a (base + e * unat (elmSize a)) =
            Some \<lparr>next = invalidTag, myTag = tagOf p e (U - word_of_nat e), state = used\<rparr>)"

text \<open>The last block of the last puddle: puddle index 255, element index 255.\<close>

definition last_block :: "poolAllocator \<Rightarrow> nat" where
  "last_block a = puddles a 255 + 255 * unat (elmSize a)"

text \<open>
  The allocator with all 256 puddles in place, an empty free list, the counter at \<open>U\<close>,
  and the last block of the last puddle handed out.
\<close>

definition all_taken :: "poolAllocator \<Rightarrow> 32 word \<Rightarrow> bool" where
  "all_taken a U \<longleftrightarrow>
     head a = invalidTag \<and> uniqueCount a = U \<and> numPuddles a = 256
     \<and> (\<exists>c. heap a (last_block a) = Some \<lparr>next = invalidTag, myTag = tagOf 255 255 c, state = used\<rparr>)"


text \<open>A provider that places puddle \<open>i\<close> at \<open>65536 * (i + 1)\<close>, for the examples.\<close>

definition provider64k :: "nat \<Rightarrow> nat" where
  "provider64k i = 65536 * (i + 1)"


text \<open>
  Every header that is not on the free list has the invalid tag as its link: the state
  in which \<^verbatim>\<open>allocPuddle\<close> (before its \<^verbatim>\<open>push\<close>) and \<^verbatim>\<open>pop\<close> leave a header.
\<close>

definition links_ok :: "poolAllocator \<Rightarrow> bool" where
  "links_ok a \<longleftrightarrow> (\<forall>b n. heap a b = Some n \<and> state n \<noteq> free \<longrightarrow> next n = invalidTag)"

section \<open>Resolving a tag\<close>

lemma mask8: "(0xFF :: 32 word) = mask 8" by (simp add: mask_eq_exp_minus_1)
lemma mask16: "(0xFFFF :: 32 word) = mask 16" by (simp add: mask_eq_exp_minus_1)
lemma maskFF00: "(0xFF00 :: 32 word) = push_bit 8 (mask 8)" by (simp add: mask_eq_exp_minus_1)

lemma elmIndex_take_bit: "tag AND 0xFF = (take_bit 8 tag :: 32 word)"
  unfolding mask8 by (rule bit_word_eqI) (auto simp: bit_simps)

lemma puddleIndex_take_bit: "drop_bit 8 (tag AND 0xFF00) = (take_bit 8 (drop_bit 8 tag) :: 32 word)"
  unfolding maskFF00 by (rule bit_word_eqI) (auto simp: bit_simps)

lemma low16_take_bit: "tag AND 0xFFFF = (take_bit 16 tag :: 32 word)"
  unfolding mask16 by (rule bit_word_eqI) (auto simp: bit_simps)

lemma addressFromTag_take_bit:
  "addressFromTag a h = puddles a (unat (take_bit 8 (drop_bit 8 h))) + unat (take_bit 8 h * elmSize a)"
  by (simp add: addressFromTag_def elmIndex_take_bit puddleIndex_take_bit)

lemma take8_drop8_take16: "take_bit 8 (drop_bit 8 (take_bit 16 h)) = (take_bit 8 (drop_bit 8 h) :: 32 word)"
  by (rule bit_word_eqI) (auto simp: bit_simps)

lemma addressFromTag_low16: "addressFromTag a (take_bit 16 h) = addressFromTag a h"
  by (simp add: addressFromTag_take_bit take8_drop8_take16)

lemma unat_take8: "unat (take_bit 8 (h :: 32 word)) = unat h mod 256"
  by (simp add: take_bit_eq_mod unat_mod_distrib)

lemma offset_exact:
  assumes "n < 256" "unat s \<le> 2 ^ 24"
  shows "unat (word_of_nat n * (s :: 32 word)) = n * unat s"
proof -
  have "n * unat s \<le> 255 * 2 ^ 24" using assms by (intro mult_mono) auto
  then have "n * unat s < 2 ^ 32" by simp
  then show ?thesis using assms by (simp add: unat_word_ariths unat_of_nat)
qed

lemma offset_exact_word:
  assumes "unat e < 256" "unat s \<le> 2 ^ 24"
  shows "unat (e * (s :: 32 word)) = unat e * unat s"
  using offset_exact[OF assms] by simp

text \<open>
  Claim C7. A tag resolves to the puddle pointer selected by its bits 8 to 15 plus the
  32-bit product of its low 8 bits and \<open>elmSize\<close>. Only the low 16 bits of the tag
  take part: a tag and its low half resolve to the same address. While the stride is at
  most \<open>2 ^ 24\<close> bytes the 32-bit product is the product of the numbers.
\<close>

theorem addressFromTag_resolves:
  "addressFromTag a h =
     puddles a (unat (take_bit 8 (drop_bit 8 h))) + unat (take_bit 8 h * elmSize a)
   \<and> addressFromTag a h = addressFromTag a (take_bit 16 h)
   \<and> (unat (elmSize a) \<le> 2 ^ 24 \<longrightarrow>
        addressFromTag a h =
          puddles a (unat (take_bit 8 (drop_bit 8 h))) + unat (take_bit 8 h) * unat (elmSize a))"
proof -
  have small: "unat (take_bit 8 h) < 256" by (simp add: unat_take8)
  have 1: "addressFromTag a h =
     puddles a (unat (take_bit 8 (drop_bit 8 h))) + unat (take_bit 8 h * elmSize a)"
    by (rule addressFromTag_take_bit)
  have 2: "addressFromTag a h = addressFromTag a (take_bit 16 h)"
    by (simp only: addressFromTag_low16)
  have 3: "unat (take_bit 8 h * elmSize a) = unat (take_bit 8 h) * unat (elmSize a)"
    if "unat (elmSize a) \<le> 2 ^ 24"
    using offset_exact_word[OF small that] .
  from 1 2 3 show ?thesis by simp
qed

theorem addressFromTag_resolves_witness:
  "unat (elmSize (alloc48\<lparr>puddles := (\<lambda>i. 4096 * (i + 1))\<rparr>)) \<le> 2 ^ 24
   \<and> addressFromTag (alloc48\<lparr>puddles := (\<lambda>i. 4096 * (i + 1))\<rparr>) 0xABCD0102 = 8192 + 2 * 48
   \<and> addressFromTag (alloc48\<lparr>puddles := (\<lambda>i. 4096 * (i + 1))\<rparr>) 0x0102 = 8192 + 2 * 48"
  using addressFromTag_resolves[of "alloc48\<lparr>puddles := (\<lambda>i. 4096 * (i + 1))\<rparr>" "0xABCD0102"]
  by (simp add: alloc48_def)

section \<open>The ownership check\<close>

lemma isOwned_from_iff:
  "isOwned_from a obj num i =
     (\<exists>j. i \<le> j \<and> j < num \<and> puddles a j \<le> obj \<and> obj < puddles a j + unat (NumPuddleElements * elmSize a))"
proof (induction a obj num i rule: isOwned_from.induct)
  case (1 a obj num i)
  show ?case
  proof (cases "i < num")
    case False
    then show ?thesis by (subst isOwned_from.simps) auto
  next
    case True
    note lt = this
    show ?thesis
    proof (cases "puddles a i \<le> obj \<and> obj < puddles a i + unat (NumPuddleElements * elmSize a)")
      case True
      with lt show ?thesis by (subst isOwned_from.simps) auto
    next
      case False
      have "isOwned_from a obj num i = isOwned_from a obj num (Suc i)"
        using lt False by (subst isOwned_from.simps) auto
      also have "\<dots> = (\<exists>j. Suc i \<le> j \<and> j < num \<and> puddles a j \<le> obj
                          \<and> obj < puddles a j + unat (NumPuddleElements * elmSize a))"
        using "1.IH"[OF lt refl refl refl] False by simp
      also have "\<dots> = (\<exists>j. i \<le> j \<and> j < num \<and> puddles a j \<le> obj
                          \<and> obj < puddles a j + unat (NumPuddleElements * elmSize a))"
        using False by (metis Suc_leD Suc_leI le_neq_implies_less)
      finally show ?thesis .
    qed
  qed
qed

lemma isOwned_iff:
  "isOwned a p = (\<exists>i. i < unat (numPuddles a) \<and> puddles a i \<le> p \<and> p < puddles a i + unat (256 * elmSize a))"
  by (simp add: isOwned_def isOwned_from_iff NumPuddleElements_def)

text \<open>
  Claim C10. \<^verbatim>\<open>isOwned\<close> holds exactly of the addresses in the byte range
  \<^verbatim>\<open>[puddles[i], puddles[i] + 256 * elmSize)\<close> of a puddle \<open>i\<close> below the puddle count, the
  size being the 32-bit product the code computes. Every offset into such a range is
  accepted: the start of a header, and offsets that are no multiple of the stride.
\<close>

theorem isOwned_range:
  "isOwned a p = (\<exists>i. i < unat (numPuddles a) \<and> puddles a i \<le> p \<and> p < puddles a i + unat (256 * elmSize a))
   \<and> (\<forall>i k. i < unat (numPuddles a) \<and> k < unat (256 * elmSize a) \<longrightarrow> isOwned a (puddles a i + k))"
proof -
  have "isOwned a (puddles a i + k)" if "i < unat (numPuddles a)" "k < unat (256 * elmSize a)" for i k
    unfolding isOwned_iff using that by (intro exI[of _ i]) simp
  then show ?thesis using isOwned_iff by blast
qed

theorem isOwned_range_witness:
  "isOwned (alloc48\<lparr>numPuddles := 1, puddles := (\<lambda>i. 4096 * (i + 1))\<rparr>) (4096 + 1)
   \<and> isOwned (alloc48\<lparr>numPuddles := 1, puddles := (\<lambda>i. 4096 * (i + 1))\<rparr>) (4096 + 48)
   \<and> \<not> isOwned (alloc48\<lparr>numPuddles := 1, puddles := (\<lambda>i. 4096 * (i + 1))\<rparr>) (4096 + 256 * 48)"
proof -
  let ?a = "alloc48\<lparr>numPuddles := 1, puddles := (\<lambda>i. 4096 * (i + 1))\<rparr>"
  have inside: "isOwned ?a (puddles ?a i + k)"
    if "i < unat (numPuddles ?a) \<and> k < unat (256 * elmSize ?a)" for i k
    using isOwned_range[of ?a 0] that by blast
  have 1: "isOwned ?a (4096 + 1)"
    using inside[of 0 1] by (simp add: alloc48_def)
  have 2: "isOwned ?a (4096 + 48)"
    using inside[of 0 48] by (simp add: alloc48_def)
  have 3: "\<not> isOwned ?a (4096 + 256 * 48)"
    using isOwned_range[of ?a "4096 + 256 * 48"] by (simp add: alloc48_def)
  from 1 2 3 show ?thesis by blast
qed

section \<open>The constructor\<close>

lemma low4_dvd: "((x::32 word) AND 15 = 0) = (16 dvd sint x)"
proof -
  have m: "(15 :: 32 word) = mask 4" by (simp add: mask_eq_exp_minus_1)
  have "(x AND 15 = 0) = (take_bit 4 x = 0)" unfolding m by (simp add: take_bit_eq_mask)
  also have "\<dots> = (take_bit 4 (sint x) = 0)"
    by (auto simp: bit_eq_iff bit_simps)
  also have "\<dots> = (16 dvd sint x)"
    by (simp add: take_bit_eq_0_iff)
  finally show ?thesis .
qed

lemma sint_le_uint: "sint (x::32 word) \<le> uint x"
proof -
  have "sint x = take_bit 32 (uint x) - 2 ^ 32 * of_bool (bit (uint x) 31)"
    by (simp add: sint_uint signed_take_bit_eq_take_bit_minus)
  moreover have "take_bit 32 (uint x) = uint x"
    using take_bit_length_eq[of x] by (simp add: take_bit_int_eq_self_iff uint_bounded[where 'a=32, simplified])
  ultimately show ?thesis by simp
qed

lemma sle_unat: "32 \<le>s (x::32 word) \<Longrightarrow> 32 \<le> unat x"
proof -
  assume "32 \<le>s x"
  then have "32 \<le> uint x" using sint_le_uint[of x] by (simp add: word_sle_eq)
  then have "int 32 \<le> int (unat x)" by simp
  then show ?thesis by (simp only: of_nat_le_iff)
qed

lemma sint_of_nat_small: "n < 2^31 \<Longrightarrow> sint (word_of_nat n :: 32 word) = int n"
proof -
  assume a: "n < 2^31"
  have "sint (word_of_nat n :: 32 word) = (int n + 2 ^ 31) mod 2 ^ 32 - 2 ^ 31"
    using int_word_sint[of "int n", where 'a=32] by simp
  moreover have "(int n + 2 ^ 31) mod 2 ^ 32 = int n + 2^31" using a by simp
  ultimately show ?thesis by simp
qed

lemma RoundUp16: "16 dvd RoundUp v 16" "v \<le> RoundUp v 16" "RoundUp v 16 < v + 16"
  by (simp_all add: RoundUp_def)

lemma poolAllocator_new_eq:
  "poolAllocator_new sizeofT =
     (if 16 dvd sint (word_of_nat (RoundUp (16 + sizeofT) 16) :: 32 word)
         \<and> 32 \<le> sint (word_of_nat (RoundUp (16 + sizeofT) 16) :: 32 word)
      then Inr \<lparr>elmSize = word_of_nat (RoundUp (16 + sizeofT) 16), uniqueCount = 0,
                head = invalidTag, numPuddles = 0, puddles = (\<lambda>i. 0), heap = (\<lambda>adr. None)\<rparr>
      else Inl AssertFailed)"
  by (simp add: poolAllocator_new_def sizeof_node_def Let_def low4_dvd word_sle_eq)

text \<open>
  Claim C6. The constructor takes \<open>RoundUp (16 + sizeofT) 16\<close>, narrowed to 32 bits, as
  the stride. The rounded value is a multiple of 16, at least \<open>16 + sizeofT\<close> and less
  than 16 above it. The constructor returns an allocator exactly when the stride, read
  as signed, is a multiple of 16 and at least 32; otherwise an assertion fails. For every
  size from 1 byte up to \<open>2 ^ 31 - 32\<close> bytes it returns, and the stride is the rounded
  value itself.
\<close>

theorem stride_checked:
  "poolAllocator_new sizeofT =
     (if 16 dvd sint (word_of_nat (RoundUp (16 + sizeofT) 16) :: 32 word)
         \<and> 32 \<le> sint (word_of_nat (RoundUp (16 + sizeofT) 16) :: 32 word)
      then Inr \<lparr>elmSize = word_of_nat (RoundUp (16 + sizeofT) 16), uniqueCount = 0,
                head = invalidTag, numPuddles = 0, puddles = (\<lambda>i. 0), heap = (\<lambda>adr. None)\<rparr>
      else Inl AssertFailed)
   \<and> 16 dvd RoundUp (16 + sizeofT) 16
   \<and> 16 + sizeofT \<le> RoundUp (16 + sizeofT) 16
   \<and> RoundUp (16 + sizeofT) 16 < 16 + sizeofT + 16
   \<and> (1 \<le> sizeofT \<and> sizeofT + 32 \<le> 2 ^ 31 \<longrightarrow>
        (\<exists>a. poolAllocator_new sizeofT = Inr a
           \<and> sint (elmSize a) = int (RoundUp (16 + sizeofT) 16)
           \<and> 16 dvd sint (elmSize a) \<and> 32 \<le> sint (elmSize a)))"
proof -
  let ?r = "RoundUp (16 + sizeofT) 16"
  have ok: "\<exists>a. poolAllocator_new sizeofT = Inr a
           \<and> sint (elmSize a) = int ?r \<and> 16 dvd sint (elmSize a) \<and> 32 \<le> sint (elmSize a)"
    if "1 \<le> sizeofT \<and> sizeofT + 32 \<le> 2 ^ 31"
  proof -
    have "?r < 2 ^ 31" using RoundUp16(3)[of "16 + sizeofT"] that by simp
    then have s: "sint (word_of_nat ?r :: 32 word) = int ?r" by (rule sint_of_nat_small)
    have "17 \<le> ?r" using RoundUp16(2)[of "16 + sizeofT"] that by simp
    moreover have d: "16 dvd ?r" by (rule RoundUp16(1))
    ultimately have "32 \<le> ?r" by presburger
    moreover have "16 dvd int ?r" using d by presburger
    ultimately show ?thesis using s by (simp add: poolAllocator_new_eq)
  qed
  show ?thesis
    using poolAllocator_new_eq[of sizeofT] RoundUp16[of "16 + sizeofT"] ok by simp
qed

theorem stride_checked_witness:
  "(1::nat) \<le> 24 \<and> (24::nat) + 32 \<le> 2 ^ 31
   \<and> (\<exists>a. poolAllocator_new 24 = Inr a \<and> sint (elmSize a) = 48)
   \<and> poolAllocator_new 0 = Inl AssertFailed"
proof -
  have "RoundUp (16 + 24) 16 = 48" by (simp add: RoundUp_def)
  moreover have "RoundUp (16 + 0) 16 = 16" by (simp add: RoundUp_def)
  ultimately show ?thesis
    using stride_checked[of 24] stride_checked[of 0] by simp
qed

section \<open>push and pop\<close>

lemma stamp_take_bit:
  "(t AND 0x0000FFFF) OR push_bit 16 (c AND 0xFFFF) = (take_bit 16 t OR push_bit 16 (take_bit 16 c) :: 32 word)"
  by (simp add: low16_take_bit)

lemma stamp_low16: "take_bit 16 (take_bit 16 t OR push_bit 16 c) = (take_bit 16 t :: 32 word)"
  by (rule bit_word_eqI) (auto simp: bit_simps)

lemma stamp_high16: "drop_bit 16 (take_bit 16 t OR push_bit 16 (take_bit 16 c)) = (take_bit 16 c :: 32 word)"
  by (rule bit_word_eqI) (auto simp: bit_simps)

lemma push_eq:
  assumes "heap a b = Some n" "state n = init \<or> state n = used" "next n = invalidTag"
  shows "push a b = Inr (a\<lparr>uniqueCount := uniqueCount a + 1,
             head := take_bit 16 (myTag n) OR push_bit 16 (take_bit 16 (uniqueCount a + 1)),
             heap := (heap a)(b \<mapsto> \<lparr>next = head a,
                        myTag = take_bit 16 (myTag n) OR push_bit 16 (take_bit 16 (uniqueCount a + 1)),
                        state = free\<rparr>)\<rparr>)"
  unfolding push_def Let_def stamp_take_bit using assms
  by (auto simp del: push_bit_and simp add: invalidTag_def)

text \<open>
  Claim C2. \<^verbatim>\<open>pop\<close> returns the null pointer exactly when the head is the invalid tag,
  and then leaves the allocator as it is. Otherwise, when the block that the low 16 bits
  of the head resolve to is free, \<^verbatim>\<open>pop\<close> returns it, the head becomes the former link of
  the block, the link of the block becomes the invalid tag and its state \<open>used\<close>. A block
  that is not free fails the assertion.
\<close>

theorem pop_effect:
  "((\<exists>a'. pop a = Inr (a', None)) \<longleftrightarrow> head a = invalidTag)
   \<and> (head a = invalidTag \<longrightarrow> pop a = Inr (a, None))
   \<and> (head a \<noteq> invalidTag \<and> heap a (addressFromTag a (take_bit 16 (head a))) = Some n \<and> state n = free \<longrightarrow>
        pop a = Inr (a\<lparr>head := next n,
                       heap := (heap a)(addressFromTag a (take_bit 16 (head a)) \<mapsto> n\<lparr>next := invalidTag, state := used\<rparr>)\<rparr>,
                     Some (addressFromTag a (take_bit 16 (head a)))))
   \<and> (head a \<noteq> invalidTag \<and> heap a (addressFromTag a (take_bit 16 (head a))) = Some n \<and> state n \<noteq> free \<longrightarrow>
        pop a = Inl AssertFailed)"
proof -
  have adr: "addressFromTag (a\<lparr>head := h\<rparr>) t = addressFromTag a t" for h t
    by (simp add: addressFromTag_def)
  show ?thesis
    by (auto simp: pop_def Let_def adr addressFromTag_low16 split: option.splits)
qed

theorem pop_effect_witness:
  "pop alloc48 = Inr (alloc48, None)
   \<and> pop (alloc48\<lparr>head := 0x00070100, puddles := (\<lambda>i. 4096 * i),
                 heap := [4096 \<mapsto> \<lparr>next = 0x00050102, myTag = 0x00070100, state = free\<rparr>]\<rparr>)
     = Inr (alloc48\<lparr>head := 0x00050102, puddles := (\<lambda>i. 4096 * i),
                 heap := [4096 \<mapsto> \<lparr>next = invalidTag, myTag = 0x00070100, state = used\<rparr>]\<rparr>, Some 4096)"
proof -
  let ?a = "alloc48\<lparr>head := 0x00070100, puddles := (\<lambda>i. 4096 * i),
                 heap := [4096 \<mapsto> \<lparr>next = 0x00050102, myTag = 0x00070100, state = free\<rparr>]\<rparr>"
  have adr: "addressFromTag ?a (take_bit 16 (head ?a)) = 4096"
    by (simp add: addressFromTag_def alloc48_def)
  have 1: "pop alloc48 = Inr (alloc48, None)"
    using pop_effect[of alloc48] by (simp add: alloc48_def)
  have 2: "pop ?a = Inr (alloc48\<lparr>head := 0x00050102, puddles := (\<lambda>i. 4096 * i),
                 heap := [4096 \<mapsto> \<lparr>next = invalidTag, myTag = 0x00070100, state = used\<rparr>]\<rparr>, Some 4096)"
    using pop_effect[of ?a "\<lparr>next = 0x00050102, myTag = 0x00070100, state = free\<rparr>"]
    unfolding adr by (simp add: alloc48_def invalidTag_def)
  from 1 2 show ?thesis by simp
qed

section \<open>Generations\<close>

lemma mod_mod_16_32: "(k :: int) mod 4294967296 mod 65536 = k mod 65536"
  by (rule mod_mod_cancel) simp

lemma mod_succ_16_32: "((x :: int) + 1) mod 4294967296 mod 65536 = (x mod 4294967296 + 1) mod 65536"
proof -
  have "(x mod 4294967296 + 1) mod 65536 = (x mod 4294967296 mod 65536 + 1) mod 65536"
    by (simp only: mod_add_left_eq)
  also have "\<dots> = (x + 1) mod 65536"
    by (simp only: mod_mod_16_32 mod_add_left_eq)
  finally show ?thesis by (simp only: mod_mod_16_32)
qed

lemma ucast_succ: "(ucast (x + 1 :: 32 word) :: 16 word) = ucast x + 1"
  apply transfer
  apply (simp add: take_bit_eq_mod mod_succ_16_32)
  done

lemma ucast_take16: "(ucast (take_bit 16 x :: 32 word) :: 16 word) = ucast x"
  by (rule bit_word_eqI) (auto simp: bit_simps)

lemma push_fields:
  assumes "push a b = Inr a'"
  shows "uniqueCount a' = uniqueCount a + 1"
    and "drop_bit 16 (head a') = take_bit 16 (uniqueCount a + 1)"
    and "elmSize a' = elmSize a" and "puddles a' = puddles a" and "numPuddles a' = numPuddles a"
proof -
  obtain n where n: "heap a b = Some n" "state n = init \<or> state n = used" "next n = invalidTag"
    using assms by (auto simp: push_def split: option.splits if_splits)
  let ?t = "take_bit 16 (myTag n) OR push_bit 16 (take_bit 16 (uniqueCount a + 1))"
  have a': "a' = a\<lparr>uniqueCount := uniqueCount a + 1, head := ?t,
             heap := (heap a)(b \<mapsto> \<lparr>next = head a, myTag = ?t, state = free\<rparr>)\<rparr>"
    using assms unfolding push_eq[OF n] by (simp only: sum.inject)
  show "uniqueCount a' = uniqueCount a + 1" by (subst a') simp
  have "head a' = ?t" by (subst a') simp
  then show "drop_bit 16 (head a') = take_bit 16 (uniqueCount a + 1)"
    by (simp only: stamp_high16)
  show "elmSize a' = elmSize a" by (subst a') simp
  show "puddles a' = puddles a" by (subst a') simp
  show "numPuddles a' = numPuddles a" by (subst a') simp
qed

lemma push_head_generation:
  assumes "push a b = Inr a'"
  shows "generation (head a') = ucast (uniqueCount a + 1)"
  by (simp only: generation_def push_fields(2)[OF assms] ucast_take16)

lemma pop_uniqueCount:
  "pop a = Inr (a', r) \<Longrightarrow> uniqueCount a' = uniqueCount a"
  by (auto simp: pop_def Let_def split: option.splits if_splits)

text \<open>
  Claim C3. Of two successful calls of \<^verbatim>\<open>push\<close> with no \<^verbatim>\<open>push\<close> between them (the
  counter is the same after the first and before the second), the second leaves a head
  whose generation is that of the first plus one, modulo \<open>2 ^ 16\<close>, hence a different
  one. A \<^verbatim>\<open>pop\<close> between them does not change the counter.
\<close>

theorem generation_increases:
  "(push a b = Inr a1 \<and> uniqueCount a2 = uniqueCount a1 \<and> push a2 c = Inr a3 \<longrightarrow>
      generation (head a3) = generation (head a1) + 1
      \<and> generation (head a3) \<noteq> generation (head a1))
   \<and> (pop a = Inr (a', r) \<longrightarrow> uniqueCount a' = uniqueCount a)"
proof -
  have "generation (head a3) = generation (head a1) + 1 \<and> generation (head a3) \<noteq> generation (head a1)"
    if h: "push a b = Inr a1" "uniqueCount a2 = uniqueCount a1" "push a2 c = Inr a3"
  proof -
    have "generation (head a3) = ucast (uniqueCount a1 + 1)"
      using push_head_generation[OF h(3)] h(2) by simp
    also have "\<dots> = (ucast (uniqueCount a1) :: 16 word) + 1"
      by (rule ucast_succ)
    also have "ucast (uniqueCount a1) = generation (head a1)"
      using push_head_generation[OF h(1)] push_fields(1)[OF h(1)] by simp
    finally have "generation (head a3) = generation (head a1) + 1" .
    then show ?thesis by simp
  qed
  then show ?thesis using pop_uniqueCount by blast
qed

theorem generation_increases_witness:
  "\<exists>a1 a3.
     push (alloc48\<lparr>uniqueCount := 0xFFFE,
              heap := [4096 \<mapsto> \<lparr>next = invalidTag, myTag = 0x0100, state = used\<rparr>,
                       4144 \<mapsto> \<lparr>next = invalidTag, myTag = 0x0101, state = used\<rparr>]\<rparr>) 4096 = Inr a1
     \<and> push a1 4144 = Inr a3
     \<and> generation (head a1) = 0xFFFF \<and> generation (head a3) = 0"
proof -
  let ?a = "alloc48\<lparr>uniqueCount := 0xFFFE,
              heap := [4096 \<mapsto> \<lparr>next = invalidTag, myTag = 0x0100, state = used\<rparr>,
                       4144 \<mapsto> \<lparr>next = invalidTag, myTag = 0x0101, state = used\<rparr>]\<rparr>"
  let ?a1 = "?a\<lparr>uniqueCount := 0xFFFF, head := 0xFFFF0100,
              heap := (heap ?a)(4096 \<mapsto> \<lparr>next = invalidTag, myTag = 0xFFFF0100, state = free\<rparr>)\<rparr>"
  let ?a3 = "?a1\<lparr>uniqueCount := 0x10000, head := 0x0101,
              heap := (heap ?a1)(4144 \<mapsto> \<lparr>next = 0xFFFF0100, myTag = 0x0101, state = free\<rparr>)\<rparr>"
  have 1: "push ?a 4096 = Inr ?a1"
    by (simp add: push_def alloc48_def)
  have 2: "push ?a1 4144 = Inr ?a3"
    by (simp add: push_def alloc48_def invalidTag_def)
  have g1: "generation (head ?a1) = 0xFFFF"
    by (simp add: generation_def)
  have "generation (head ?a3) = generation (head ?a1) + 1"
    using generation_increases[of ?a 4096 ?a1 ?a1 4144 ?a3] 1 2 by blast
  then have "generation (head ?a3) = 0" unfolding g1 by simp
  then show ?thesis using 1 2 g1 by blast
qed

section \<open>Stamped tags\<close>

lemma bit_nat_256: "e < 256 \<Longrightarrow> bit (e::nat) n \<Longrightarrow> n < 8"
  using bit_take_bit_iff[of 8 e n] take_bit_nat_eq_self_iff[of 8 e] by simp

lemma index_low16:
  "p < 256 \<Longrightarrow> e < 256 \<Longrightarrow>
   take_bit 16 (push_bit 8 (word_of_nat p) OR word_of_nat e :: 32 word) = push_bit 8 (word_of_nat p) OR word_of_nat e"
  by (rule bit_word_eqI) (auto simp: bit_simps dest: bit_nat_256)

lemma stamp_index:
  "p < 256 \<Longrightarrow> e < 256 \<Longrightarrow>
   take_bit 16 (push_bit 8 (word_of_nat p) OR word_of_nat e) OR push_bit 16 (take_bit 16 c) = tagOf p e c"
  by (simp only: index_low16 tagOf_def)

lemma tagOf_low16:
  "p < 256 \<Longrightarrow> e < 256 \<Longrightarrow> take_bit 16 (tagOf p e c) = push_bit 8 (word_of_nat p) OR word_of_nat e"
  unfolding tagOf_def by (rule bit_word_eqI) (auto simp: bit_simps dest: bit_nat_256)

lemma stamp_tagOf:
  "p < 256 \<Longrightarrow> e < 256 \<Longrightarrow> take_bit 16 (tagOf p e c) OR push_bit 16 (take_bit 16 c') = tagOf p e c'"
  by (simp only: tagOf_low16) (simp only: tagOf_def)

lemma tagOf_elmIndex:
  "p < 256 \<Longrightarrow> e < 256 \<Longrightarrow> take_bit 8 (tagOf p e c) = word_of_nat e"
  unfolding tagOf_def by (rule bit_word_eqI) (auto simp: bit_simps dest: bit_nat_256)

lemma tagOf_puddleIndex:
  "p < 256 \<Longrightarrow> e < 256 \<Longrightarrow> take_bit 8 (drop_bit 8 (tagOf p e c)) = word_of_nat p"
  unfolding tagOf_def by (rule bit_word_eqI) (auto simp: bit_simps dest: bit_nat_256)

lemma tagOf_generation:
  "p < 256 \<Longrightarrow> e < 256 \<Longrightarrow> drop_bit 16 (tagOf p e c) = take_bit 16 c"
  unfolding tagOf_def by (rule bit_word_eqI) (auto simp: bit_simps dest: bit_nat_256)

lemma addressFromTag_tagOf:
  assumes "p < 256" "e < 256"
  shows "addressFromTag a (tagOf p e c) = puddles a p + unat (word_of_nat e * elmSize a)"
  using assms by (simp add: addressFromTag_take_bit tagOf_elmIndex tagOf_puddleIndex unat_of_nat)

lemma tagOf_invalid:
  assumes "p < 256" "e < 256" "tagOf p e c = invalidTag"
  shows "p = 255 \<and> e = 255 \<and> take_bit 16 c = 0xFFFF"
proof -
  have "take_bit 8 (tagOf p e c) = 0xFF" "take_bit 8 (drop_bit 8 (tagOf p e c)) = 0xFF"
       "drop_bit 16 (tagOf p e c) = 0xFFFF"
    unfolding assms(3) invalidTag_def by simp_all
  then have "(word_of_nat e :: 32 word) = 0xFF" "(word_of_nat p :: 32 word) = 0xFF" "take_bit 16 c = 0xFFFF"
    using assms(1,2) by (simp_all add: tagOf_elmIndex tagOf_puddleIndex tagOf_generation)
  then have "unat (word_of_nat e :: 32 word) = 255" "unat (word_of_nat p :: 32 word) = 255" "take_bit 16 c = 0xFFFF"
    by simp_all
  then show ?thesis using assms(1,2) by (simp add: unat_of_nat)
qed

lemma tagOf_sentinel:
  "take_bit 16 c = 0xFFFF \<Longrightarrow> tagOf 255 255 c = invalidTag"
  by (simp add: tagOf_def invalidTag_def)

section \<open>Filling a puddle\<close>

lemma unat_index: "p < 256 \<Longrightarrow> unat (word_of_nat p :: 32 word) = p"
  by (simp add: unat_of_nat)

lemma populate_result:
  assumes "p < 256" "n \<le> 256" "0 < unat (elmSize a)" "unat (elmSize a) \<le> 2 ^ 23"
  shows "\<exists>a'. populate a (word_of_nat p) n = Inr a'
     \<and> elmSize a' = elmSize a \<and> puddles a' = puddles a \<and> numPuddles a' = numPuddles a
     \<and> uniqueCount a' = uniqueCount a + word_of_nat n
     \<and> head a' = (if n = 0 then head a else tagOf p 0 (uniqueCount a + word_of_nat n))
     \<and> (\<forall>e<n. heap a' (puddles a p + e * unat (elmSize a)) =
           Some \<lparr>next = (if Suc e = n then head a
                          else tagOf p (Suc e) (uniqueCount a + word_of_nat n - word_of_nat (Suc e))),
                 myTag = tagOf p e (uniqueCount a + word_of_nat n - word_of_nat e),
                 state = free\<rparr>)
     \<and> (\<forall>adr. (\<forall>e<n. adr \<noteq> puddles a p + e * unat (elmSize a)) \<longrightarrow> heap a' adr = heap a adr)"
  using assms
proof (induction n arbitrary: a)
  case 0
  then show ?case by simp
next
  case (Suc n)
  let ?s = "unat (elmSize a)"
  let ?B = "puddles a p"
  let ?ptr = "?B + n * ?s"
  let ?N0 = "\<lparr>next = invalidTag, myTag = push_bit 8 (word_of_nat p) OR word_of_nat n, state = init\<rparr>"
  let ?a1 = "a\<lparr>heap := (heap a)(?ptr \<mapsto> ?N0)\<rparr>"
  let ?t = "tagOf p n (uniqueCount a + 1)"
  let ?a2 = "?a1\<lparr>uniqueCount := uniqueCount a + 1, head := ?t,
                  heap := (heap ?a1)(?ptr \<mapsto> \<lparr>next = head a, myTag = ?t, state = free\<rparr>)\<rparr>"
  let ?U = "uniqueCount a + word_of_nat (Suc n)"
  have p: "p < 256" by fact
  have n: "n < 256" using Suc.prems by simp
  have s: "0 < ?s" "?s \<le> 2 ^ 23" using Suc.prems by simp_all
  have off: "unat (word_of_nat n * elmSize a) = n * ?s"
    using offset_exact[OF n, of "elmSize a"] s by simp
  have push: "push ?a1 ?ptr = Inr ?a2"
    using push_eq[of ?a1 ?ptr ?N0] stamp_index[OF p n, of "uniqueCount a + 1"] by simp
  have unf: "populate a (word_of_nat p) (Suc n) = populate ?a2 (word_of_nat p) n"
    using push off p by (simp add: unat_index Let_def)
  have pre: "n \<le> 256" "0 < unat (elmSize ?a2)" "unat (elmSize ?a2) \<le> 2 ^ 23"
    using n s by simp_all
  from Suc.IH[OF p pre] obtain a' where IH:
      "populate ?a2 (word_of_nat p) n = Inr a'
     \<and> elmSize a' = elmSize ?a2 \<and> puddles a' = puddles ?a2 \<and> numPuddles a' = numPuddles ?a2
     \<and> uniqueCount a' = uniqueCount ?a2 + word_of_nat n
     \<and> head a' = (if n = 0 then head ?a2 else tagOf p 0 (uniqueCount ?a2 + word_of_nat n))
     \<and> (\<forall>e<n. heap a' (puddles ?a2 p + e * unat (elmSize ?a2)) =
           Some \<lparr>next = (if Suc e = n then head ?a2
                          else tagOf p (Suc e) (uniqueCount ?a2 + word_of_nat n - word_of_nat (Suc e))),
                 myTag = tagOf p e (uniqueCount ?a2 + word_of_nat n - word_of_nat e),
                 state = free\<rparr>)
     \<and> (\<forall>adr. (\<forall>e<n. adr \<noteq> puddles ?a2 p + e * unat (elmSize ?a2)) \<longrightarrow> heap a' adr = heap ?a2 adr)"
    by blast
  have pop: "populate ?a2 (word_of_nat p) n = Inr a'" using IH by blast
  have fields: "elmSize a' = elmSize a" "puddles a' = puddles a" "numPuddles a' = numPuddles a"
    using IH by simp_all
  have uc: "uniqueCount a' = ?U"
  proof -
    have "uniqueCount a' = uniqueCount ?a2 + word_of_nat n" using IH by blast
    then show ?thesis by simp
  qed
  have hd: "head a' = (if n = 0 then ?t else tagOf p 0 ?U)"
  proof -
    have "head a' = (if n = 0 then head ?a2 else tagOf p 0 (uniqueCount ?a2 + word_of_nat n))"
      using IH by blast
    then show ?thesis by (simp add: add.assoc)
  qed
  have slots: "heap a' (?B + e * ?s) =
           Some \<lparr>next = (if Suc e = n then ?t else tagOf p (Suc e) (?U - word_of_nat (Suc e))),
                 myTag = tagOf p e (?U - word_of_nat e), state = free\<rparr>" if "e < n" for e
  proof -
    have "heap a' (puddles ?a2 p + e * unat (elmSize ?a2)) =
           Some \<lparr>next = (if Suc e = n then head ?a2
                          else tagOf p (Suc e) (uniqueCount ?a2 + word_of_nat n - word_of_nat (Suc e))),
                 myTag = tagOf p e (uniqueCount ?a2 + word_of_nat n - word_of_nat e),
                 state = free\<rparr>"
      using IH that by blast
    then show ?thesis by (simp add: add.assoc)
  qed
  have rest: "heap a' adr = heap ?a2 adr" if "\<forall>e<n. adr \<noteq> ?B + e * ?s" for adr
  proof -
    have "(\<forall>e<n. adr \<noteq> puddles ?a2 p + e * unat (elmSize ?a2)) \<longrightarrow> heap a' adr = heap ?a2 adr"
      using IH by blast
    then show ?thesis using that by simp
  qed
  have last: "heap a' ?ptr = Some \<lparr>next = head a, myTag = ?t, state = free\<rparr>"
  proof -
    have "\<forall>e<n. ?ptr \<noteq> ?B + e * ?s" using s(1) by auto
    then have "heap a' ?ptr = heap ?a2 ?ptr" by (rule rest)
    then show ?thesis by simp
  qed
  have tn: "?U - word_of_nat n = uniqueCount a + 1" by simp
  have slots': "heap a' (?B + e * ?s) =
           Some \<lparr>next = (if Suc e = Suc n then head a else tagOf p (Suc e) (?U - word_of_nat (Suc e))),
                 myTag = tagOf p e (?U - word_of_nat e), state = free\<rparr>" if "e < Suc n" for e
  proof (cases "e = n")
    case True
    show ?thesis unfolding True tn using last by simp
  next
    case False
    then have e: "e < n" using that by simp
    show ?thesis
    proof (cases "Suc e = n")
      case True
      have "?U - word_of_nat (Suc e) = uniqueCount a + 1" unfolding True by (rule tn)
      moreover have "tagOf p n = tagOf p (Suc e)" unfolding True ..
      ultimately show ?thesis using slots[OF e] True e by (simp only: if_True) simp
    next
      case False
      then show ?thesis using slots[OF e] e by simp
    qed
  qed
  have rest': "heap a' adr = heap a adr" if "\<forall>e<Suc n. adr \<noteq> ?B + e * ?s" for adr
  proof -
    have "\<forall>e<n. adr \<noteq> ?B + e * ?s" "adr \<noteq> ?ptr" using that by auto
    then show ?thesis using rest[of adr] by simp
  qed
  have hd': "head a' = tagOf p 0 ?U"
    using hd by (cases "n = 0") simp_all
  show ?case
    unfolding unf using pop fields uc hd' slots' rest' by simp
qed

subsection \<open>The whole of allocPuddle\<close>

lemma byte_size_exact: "unat (s :: 32 word) \<le> 2 ^ 23 \<Longrightarrow> unat (256 * s) = 256 * unat s"
  by (simp add: unat_word_ariths)

lemma numPuddles_index:
  assumes "unat (n :: 32 word) = p"
  shows "n = word_of_nat p"
  using assms by auto

lemma allocPuddle_result:
  assumes "unat (numPuddles a) = p" "p < 256" "0 < unat (elmSize a)" "unat (elmSize a) \<le> 2 ^ 23"
  shows "\<exists>a'. allocPuddle memAlloc a = Inr a'
     \<and> elmSize a' = elmSize a \<and> puddles a' = (puddles a)(p := memAlloc p)
     \<and> numPuddles a' = word_of_nat (Suc p)
     \<and> uniqueCount a' = uniqueCount a + 256
     \<and> head a' = tagOf p 0 (uniqueCount a + 256)
     \<and> (\<forall>e<256. heap a' (memAlloc p + e * unat (elmSize a)) =
           Some \<lparr>next = (if e = 255 then head a
                          else tagOf p (Suc e) (uniqueCount a + 256 - word_of_nat (Suc e))),
                 myTag = tagOf p e (uniqueCount a + 256 - word_of_nat e),
                 state = free\<rparr>)
     \<and> (\<forall>adr. (\<forall>e<256. adr \<noteq> memAlloc p + e * unat (elmSize a)) \<longrightarrow>
            heap a' adr = memClear (heap a) (memAlloc p) (256 * unat (elmSize a)) adr)"
proof -
  let ?a3 = "a\<lparr>numPuddles := numPuddles a + 1, puddles := (puddles a)(p := memAlloc p),
               heap := memClear (heap a) (memAlloc p) (256 * unat (elmSize a))\<rparr>"
  have np: "numPuddles a = word_of_nat p" using assms(1) by (rule numPuddles_index)
  have lt: "numPuddles a < MaxNumPuddles"
    using assms(1,2) by (simp add: MaxNumPuddles_def word_less_nat_alt)
  have unf: "allocPuddle memAlloc a = populate ?a3 (word_of_nat p) 256"
    using lt assms(1) byte_size_exact[OF assms(4)]
    by (simp add: allocPuddle_def Let_def NumPuddleElements_def np[symmetric])
  have pre: "(256::nat) \<le> 256" "0 < unat (elmSize ?a3)" "unat (elmSize ?a3) \<le> 2 ^ 23"
    using assms by simp_all
  from populate_result[OF assms(2) pre] obtain a' where R:
    "populate ?a3 (word_of_nat p) 256 = Inr a'
     \<and> elmSize a' = elmSize ?a3 \<and> puddles a' = puddles ?a3 \<and> numPuddles a' = numPuddles ?a3
     \<and> uniqueCount a' = uniqueCount ?a3 + word_of_nat 256
     \<and> head a' = (if (256::nat) = 0 then head ?a3 else tagOf p 0 (uniqueCount ?a3 + word_of_nat 256))
     \<and> (\<forall>e<256. heap a' (puddles ?a3 p + e * unat (elmSize ?a3)) =
           Some \<lparr>next = (if Suc e = 256 then head ?a3
                          else tagOf p (Suc e) (uniqueCount ?a3 + word_of_nat 256 - word_of_nat (Suc e))),
                 myTag = tagOf p e (uniqueCount ?a3 + word_of_nat 256 - word_of_nat e),
                 state = free\<rparr>)
     \<and> (\<forall>adr. (\<forall>e<256. adr \<noteq> puddles ?a3 p + e * unat (elmSize ?a3)) \<longrightarrow> heap a' adr = heap ?a3 adr)"
    by blast
  have 1: "allocPuddle memAlloc a = Inr a'" using R unf by simp
  have 2: "elmSize a' = elmSize a" "puddles a' = (puddles a)(p := memAlloc p)"
    using R by simp_all
  have 3: "numPuddles a' = word_of_nat (Suc p)"
  proof -
    have "numPuddles a' = numPuddles ?a3" using R by blast
    then show ?thesis using np by simp
  qed
  have 4: "uniqueCount a' = uniqueCount a + 256"
  proof -
    have "uniqueCount a' = uniqueCount ?a3 + word_of_nat 256" using R by blast
    then show ?thesis by simp
  qed
  have 5: "head a' = tagOf p 0 (uniqueCount a + 256)"
  proof -
    have "head a' = (if (256::nat) = 0 then head ?a3 else tagOf p 0 (uniqueCount ?a3 + word_of_nat 256))"
      using R by blast
    then show ?thesis by simp
  qed
  have 6: "heap a' (memAlloc p + e * unat (elmSize a)) =
           Some \<lparr>next = (if e = 255 then head a
                          else tagOf p (Suc e) (uniqueCount a + 256 - word_of_nat (Suc e))),
                 myTag = tagOf p e (uniqueCount a + 256 - word_of_nat e),
                 state = free\<rparr>" if "e < 256" for e
  proof -
    have "heap a' (puddles ?a3 p + e * unat (elmSize ?a3)) =
           Some \<lparr>next = (if Suc e = 256 then head ?a3
                          else tagOf p (Suc e) (uniqueCount ?a3 + word_of_nat 256 - word_of_nat (Suc e))),
                 myTag = tagOf p e (uniqueCount ?a3 + word_of_nat 256 - word_of_nat e),
                 state = free\<rparr>"
      using R that by blast
    then show ?thesis by simp
  qed
  have 7: "heap a' adr = memClear (heap a) (memAlloc p) (256 * unat (elmSize a)) adr"
    if "\<forall>e<256. adr \<noteq> memAlloc p + e * unat (elmSize a)" for adr
  proof -
    have "(\<forall>e<256. adr \<noteq> puddles ?a3 p + e * unat (elmSize ?a3)) \<longrightarrow> heap a' adr = heap ?a3 adr"
      using R by blast
    then show ?thesis using that by simp
  qed
  from 1 2 3 4 5 6 7 show ?thesis by blast
qed

section \<open>Taking blocks from the newest puddle\<close>

lemma pop_empty: "head a = invalidTag \<Longrightarrow> pop a = Inr (a, None)"
  by (simp add: pop_def)

lemma pop_take:
  assumes "head a \<noteq> invalidTag" "addressFromTag a (head a) = adr" "heap a adr = Some n" "state n = free"
  shows "pop a = Inr (a\<lparr>head := next n, heap := (heap a)(adr \<mapsto> n\<lparr>next := invalidTag, state := used\<rparr>)\<rparr>,
                     Some adr)"
proof -
  have "addressFromTag (a\<lparr>head := h\<rparr>) t = addressFromTag a t" for h t
    by (simp add: addressFromTag_def)
  then show ?thesis using assms by (auto simp: pop_def Let_def)
qed

lemma serving_head_valid:
  assumes "p < 256" "j < 256" "tagOf p 255 (U - 255) \<noteq> invalidTag"
  shows "tagOf p j (U - word_of_nat j) \<noteq> invalidTag"
proof
  assume inv: "tagOf p j (U - word_of_nat j) = invalidTag"
  from tagOf_invalid[OF assms(1,2) inv] have "j = 255" by simp
  then show False using inv assms(3) by simp
qed

lemma pop_serving:
  assumes sv: "serving base a p j U" and j: "j < 256" and p: "p < 256"
    and s: "0 < unat (elmSize a)" "unat (elmSize a) \<le> 2 ^ 23"
  shows "\<exists>a'. pop a = Inr (a', Some (base + j * unat (elmSize a)))
           \<and> serving base a' p (Suc j) U \<and> elmSize a' = elmSize a \<and> puddles a' = puddles a"
proof -
  let ?s = "unat (elmSize a)"
  let ?adr = "base + j * ?s"
  let ?n = "\<lparr>next = (if j = 255 then invalidTag else tagOf p (Suc j) (U - word_of_nat (Suc j))),
            myTag = tagOf p j (U - word_of_nat j), state = free\<rparr>"
  let ?a' = "a\<lparr>head := next ?n, heap := (heap a)(?adr \<mapsto> ?n\<lparr>next := invalidTag, state := used\<rparr>)\<rparr>"
  have base: "puddles a p = base" and guard: "tagOf p 255 (U - 255) \<noteq> invalidTag"
    and np: "numPuddles a = word_of_nat (Suc p)" and uc: "uniqueCount a = U"
    using sv by (simp_all add: serving_def)
  have hd: "head a = tagOf p j (U - word_of_nat j)"
    using sv j by (simp add: serving_def)
  have frees: "heap a (base + e * ?s) =
              Some \<lparr>next = (if e = 255 then invalidTag else tagOf p (Suc e) (U - word_of_nat (Suc e))),
                    myTag = tagOf p e (U - word_of_nat e), state = free\<rparr>" if "j \<le> e" "e < 256" for e
    using sv that by (simp add: serving_def)
  have useds: "heap a (base + e * ?s) =
            Some \<lparr>next = invalidTag, myTag = tagOf p e (U - word_of_nat e), state = used\<rparr>" if "e < j" for e
    using sv that by (simp add: serving_def)
  have valid: "head a \<noteq> invalidTag"
    unfolding hd using serving_head_valid[OF p j guard] .
  have adr: "addressFromTag a (head a) = ?adr"
    unfolding hd using addressFromTag_tagOf[OF p j, of a] offset_exact[OF j, of "elmSize a"] s base
    by simp
  have node: "heap a ?adr = Some ?n" using frees[of j] j by simp
  have pop: "pop a = Inr (?a', Some ?adr)"
    using pop_take[OF valid adr node] by simp
  have other: "base + e * ?s \<noteq> ?adr" if "e \<noteq> j" for e
    using that s(1) by simp
  have "serving base ?a' p (Suc j) U"
    unfolding serving_def
  proof (intro conjI allI impI)
    show "numPuddles ?a' = word_of_nat (Suc p)" using np by simp
    show "uniqueCount ?a' = U" using uc by simp
    show "puddles ?a' p = base" using base by simp
    show "tagOf p 255 (U - 255) \<noteq> invalidTag" by (rule guard)
    show "head ?a' = (if Suc j < 256 then tagOf p (Suc j) (U - word_of_nat (Suc j)) else invalidTag)"
      using j by auto
  next
    fix e assume e: "Suc j \<le> e \<and> e < 256"
    then have "e \<noteq> j" "j \<le> e" "e < 256" by simp_all
    then show "heap ?a' (base + e * unat (elmSize ?a')) =
              Some \<lparr>next = (if e = 255 then invalidTag else tagOf p (Suc e) (U - word_of_nat (Suc e))),
                    myTag = tagOf p e (U - word_of_nat e), state = free\<rparr>"
      using frees[of e] other[of e] by simp
  next
    fix e assume e: "e < Suc j"
    show "heap ?a' (base + e * unat (elmSize ?a')) =
            Some \<lparr>next = invalidTag, myTag = tagOf p e (U - word_of_nat e), state = used\<rparr>"
    proof (cases "e = j")
      case True
      then show ?thesis by simp
    next
      case False
      then have "e < j" using e by simp
      then show ?thesis using useds[of e] other[OF False] by simp
    qed
  qed
  then show ?thesis using pop by simp
qed

lemma Create_serving:
  assumes "serving base a p j U" "j < 256" "p < 256"
    "0 < unat (elmSize a)" "unat (elmSize a) \<le> 2 ^ 23"
  shows "\<exists>a'. Create memAlloc a = Inr (a', base + j * unat (elmSize a) + 16)
           \<and> serving base a' p (Suc j) U \<and> elmSize a' = elmSize a \<and> puddles a' = puddles a"
proof -
  from pop_serving[OF assms] obtain a' where
    "pop a = Inr (a', Some (base + j * unat (elmSize a)))"
    "serving base a' p (Suc j) U \<and> elmSize a' = elmSize a \<and> puddles a' = puddles a"
    by blast
  then show ?thesis by (simp add: Create_def sizeof_node_def)
qed

lemma allocPuddle_serving:
  assumes "head a = invalidTag" "unat (numPuddles a) = p" "p < 256"
    "0 < unat (elmSize a)" "unat (elmSize a) \<le> 2 ^ 23"
    "tagOf p 255 (uniqueCount a + 1) \<noteq> invalidTag"
  shows "\<exists>a'. allocPuddle memAlloc a = Inr a'
           \<and> serving (memAlloc p) a' p 0 (uniqueCount a + 256) \<and> elmSize a' = elmSize a
           \<and> puddles a' = (puddles a)(p := memAlloc p)"
proof -
  from allocPuddle_result[OF assms(2-5), of memAlloc] obtain a' where R:
    "allocPuddle memAlloc a = Inr a'" "elmSize a' = elmSize a" "puddles a' = (puddles a)(p := memAlloc p)"
    "numPuddles a' = word_of_nat (Suc p)" "uniqueCount a' = uniqueCount a + 256"
    "head a' = tagOf p 0 (uniqueCount a + 256)"
    "\<forall>e<256. heap a' (memAlloc p + e * unat (elmSize a)) =
           Some \<lparr>next = (if e = 255 then head a
                          else tagOf p (Suc e) (uniqueCount a + 256 - word_of_nat (Suc e))),
                 myTag = tagOf p e (uniqueCount a + 256 - word_of_nat e),
                 state = free\<rparr>"
    by blast
  have "uniqueCount a + 256 - 255 = uniqueCount a + 1" by simp
  then have "serving (memAlloc p) a' p 0 (uniqueCount a + 256)"
    unfolding serving_def using R assms(1,6) by (simp add: add.commute)
  then show ?thesis using R by blast
qed

lemma Create_grow:
  assumes "head a = invalidTag" "unat (numPuddles a) = p" "p < 256"
    "0 < unat (elmSize a)" "unat (elmSize a) \<le> 2 ^ 23"
    "tagOf p 255 (uniqueCount a + 1) \<noteq> invalidTag"
  shows "\<exists>a'. Create memAlloc a = Inr (a', memAlloc p + 16)
           \<and> serving (memAlloc p) a' p 1 (uniqueCount a + 256) \<and> elmSize a' = elmSize a
           \<and> puddles a' = (puddles a)(p := memAlloc p)"
proof -
  from allocPuddle_serving[OF assms, of memAlloc] obtain a2 where a2:
    "allocPuddle memAlloc a = Inr a2" "serving (memAlloc p) a2 p 0 (uniqueCount a + 256)"
    "elmSize a2 = elmSize a" "puddles a2 = (puddles a)(p := memAlloc p)"
    by blast
  have s2: "0 < unat (elmSize a2)" "unat (elmSize a2) \<le> 2 ^ 23" using assms a2(3) by simp_all
  have z: "(0::nat) < 256" by simp
  from pop_serving[OF a2(2) z assms(3) s2] obtain a3 where a3:
    "pop a2 = Inr (a3, Some (memAlloc p + 0 * unat (elmSize a2)))"
    "serving (memAlloc p) a3 p (Suc 0) (uniqueCount a + 256)"
    "elmSize a3 = elmSize a2" "puddles a3 = puddles a2"
    by blast
  have "Create memAlloc a = Inr (a3, memAlloc p + 16)"
    using pop_empty[OF assms(1)] a2(1) a3(1) by (simp add: Create_def sizeof_node_def)
  then show ?thesis using a3 a2 by simp
qed

lemma Create_full:
  assumes "head a = invalidTag" "numPuddles a = 256"
  shows "Create memAlloc a = Inl AssertFailed"
  using assms pop_empty[OF assms(1)]
  by (simp add: Create_def allocPuddle_def Let_def MaxNumPuddles_def)

section \<open>Sequences of calls\<close>

lemma run_append:
  "run dbg memAlloc (xs @ ys) st =
     (case run dbg memAlloc xs st of Inl e \<Rightarrow> Inl e | Inr st' \<Rightarrow> run dbg memAlloc ys st')"
proof (induction xs arbitrary: st)
  case Nil
  then show ?case by simp
next
  case (Cons c xs)
  obtain a live where st: "st = (a, live)" by (cases st)
  show ?case
    unfolding st using Cons.IH
    by (cases c) (auto split: sum.splits prod.splits)
qed

lemma run_creates_serving:
  assumes "serving base a p j U" "j + m \<le> 256" "p < 256"
    "0 < unat (elmSize a)" "unat (elmSize a) \<le> 2 ^ 23"
  shows "\<exists>a' L. run dbg memAlloc (replicate m CallCreate) (a, live) = Inr (a', L)
           \<and> serving base a' p (j + m) U \<and> elmSize a' = elmSize a \<and> puddles a' = puddles a
           \<and> length L = length live + m"
  using assms
proof (induction m arbitrary: a j live)
  case 0
  then show ?case by simp
next
  case (Suc m)
  have j: "j < 256" using Suc.prems(2) by simp
  from Create_serving[OF Suc.prems(1) j Suc.prems(3,4,5), of memAlloc] obtain a1 where a1:
    "Create memAlloc a = Inr (a1, base + j * unat (elmSize a) + 16)"
    "serving base a1 p (Suc j) U" "elmSize a1 = elmSize a" "puddles a1 = puddles a"
    by blast
  have pre: "Suc j + m \<le> 256" "0 < unat (elmSize a1)" "unat (elmSize a1) \<le> 2 ^ 23"
    using Suc.prems a1(3) by simp_all
  from Suc.IH[OF a1(2) pre(1) Suc.prems(3) pre(2,3), of "(base + j * unat (elmSize a) + 16) # live"]
  obtain a' L where R:
    "run dbg memAlloc (replicate m CallCreate) (a1, (base + j * unat (elmSize a) + 16) # live) = Inr (a', L)"
    "serving base a' p (Suc j + m) U" "elmSize a' = elmSize a1" "puddles a' = puddles a1"
    "length L = length ((base + j * unat (elmSize a) + 16) # live) + m"
    by blast
  show ?case using a1 R by simp
qed

lemma unat_take16: "unat (take_bit 16 (h :: 32 word)) = unat h mod 65536"
  by (simp add: take_bit_eq_mod unat_mod_distrib)

lemma counter_guard:
  assumes "P < 256"
  shows "tagOf P 255 (word_of_nat (256 * P) + 1) \<noteq> invalidTag"
proof
  assume "tagOf P 255 (word_of_nat (256 * P) + 1) = invalidTag"
  then have "take_bit 16 (word_of_nat (256 * P) + 1 :: 32 word) = 0xFFFF"
    using tagOf_invalid[OF assms, of 255] by simp
  then have "unat (take_bit 16 (word_of_nat (256 * P) + 1 :: 32 word)) = unat (0xFFFF :: 32 word)"
    by (simp only:)
  then have "unat (word_of_nat (256 * P) + 1 :: 32 word) mod 65536 = 65535"
    by (simp only: unat_take16) simp
  moreover have "unat (word_of_nat (256 * P) + 1 :: 32 word) = 256 * P + 1"
    using assms by (simp add: unat_word_ariths unat_of_nat)
  ultimately have "(256 * P + 1) mod 65536 = 65535"
    by (simp only:)
  then show False using assms by simp
qed

lemma run_puddle:
  assumes "head a = invalidTag" "numPuddles a = word_of_nat P" "uniqueCount a = word_of_nat (256 * P)"
    "P < 256" "0 < unat (elmSize a)" "unat (elmSize a) \<le> 2 ^ 23"
  shows "\<exists>a' L. run dbg memAlloc (replicate 256 CallCreate) (a, live) = Inr (a', L)
           \<and> serving (memAlloc P) a' P 256 (word_of_nat (256 * Suc P)) \<and> elmSize a' = elmSize a
           \<and> length L = length live + 256"
proof -
  have np: "unat (numPuddles a) = P" using assms(2,4) by (simp add: unat_of_nat)
  have guard: "tagOf P 255 (uniqueCount a + 1) \<noteq> invalidTag"
    unfolding assms(3) using counter_guard[OF assms(4)] .
  have U: "uniqueCount a + 256 = word_of_nat (256 * Suc P)" unfolding assms(3) by simp
  from Create_grow[OF assms(1) np assms(4,5,6) guard, of memAlloc] obtain a1 where a1:
    "Create memAlloc a = Inr (a1, memAlloc P + 16)"
    "serving (memAlloc P) a1 P 1 (word_of_nat (256 * Suc P))" "elmSize a1 = elmSize a"
    unfolding U by blast
  have pre: "1 + 255 \<le> (256::nat)" "0 < unat (elmSize a1)" "unat (elmSize a1) \<le> 2 ^ 23"
    using assms a1(3) by simp_all
  from run_creates_serving[OF a1(2) pre(1) assms(4) pre(2,3), of dbg memAlloc "(memAlloc P + 16) # live"]
  obtain a' L where R:
    "run dbg memAlloc (replicate 255 CallCreate) (a1, (memAlloc P + 16) # live) = Inr (a', L)"
    "serving (memAlloc P) a' P (1 + 255) (word_of_nat (256 * Suc P))" "elmSize a' = elmSize a1"
    "length L = length ((memAlloc P + 16) # live) + 255"
    by blast
  have "replicate 256 CallCreate = CallCreate # replicate 255 CallCreate"
    by (simp add: replicate_Suc[symmetric] del: replicate_Suc)
  then show ?thesis using a1 R by simp
qed

lemma serving_drained:
  assumes "serving base a p 256 U"
  shows "head a = invalidTag" "numPuddles a = word_of_nat (Suc p)" "uniqueCount a = U"
  using assms by (simp_all add: serving_def)

lemma run_puddles:
  assumes "head a = invalidTag" "numPuddles a = word_of_nat P" "uniqueCount a = word_of_nat (256 * P)"
    "P + q \<le> 256" "0 < unat (elmSize a)" "unat (elmSize a) \<le> 2 ^ 23"
  shows "\<exists>a' L. run dbg memAlloc (replicate (256 * q) CallCreate) (a, live) = Inr (a', L)
           \<and> head a' = invalidTag \<and> numPuddles a' = word_of_nat (P + q)
           \<and> uniqueCount a' = word_of_nat (256 * (P + q)) \<and> elmSize a' = elmSize a
           \<and> length L = length live + 256 * q
           \<and> (0 < q \<longrightarrow> serving (memAlloc (P + q - 1)) a' (P + q - 1) 256 (word_of_nat (256 * (P + q))))"
  using assms
proof (induction q arbitrary: a P live)
  case 0
  then show ?case by simp
next
  case (Suc q)
  have P: "P < 256" using Suc.prems(4) by simp
  from run_puddle[OF Suc.prems(1,2,3) P Suc.prems(5,6), of dbg memAlloc live] obtain a1 L1 where a1:
    "run dbg memAlloc (replicate 256 CallCreate) (a, live) = Inr (a1, L1)"
    "serving (memAlloc P) a1 P 256 (word_of_nat (256 * Suc P))" "elmSize a1 = elmSize a"
    "length L1 = length live + 256"
    by blast
  note d = serving_drained[OF a1(2)]
  have pre: "Suc P + q \<le> 256" "0 < unat (elmSize a1)" "unat (elmSize a1) \<le> 2 ^ 23"
    using Suc.prems a1(3) by simp_all
  from Suc.IH[OF d pre, of L1] obtain a' L where R:
    "run dbg memAlloc (replicate (256 * q) CallCreate) (a1, L1) = Inr (a', L)"
    "head a' = invalidTag" "numPuddles a' = word_of_nat (Suc P + q)"
    "uniqueCount a' = word_of_nat (256 * (Suc P + q))" "elmSize a' = elmSize a1"
    "length L = length L1 + 256 * q"
    "0 < q \<longrightarrow> serving (memAlloc (Suc P + q - 1)) a' (Suc P + q - 1) 256 (word_of_nat (256 * (Suc P + q)))"
    by blast
  have split: "replicate (256 * Suc q) CallCreate = replicate 256 CallCreate @ replicate (256 * q) CallCreate"
    by (simp add: replicate_add[symmetric])
  have run: "run dbg memAlloc (replicate (256 * Suc q) CallCreate) (a, live) = Inr (a', L)"
    unfolding split run_append using a1(1) R(1) by simp
  have last: "serving (memAlloc (P + Suc q - 1)) a' (P + Suc q - 1) 256 (word_of_nat (256 * (P + Suc q)))"
  proof (cases "q = 0")
    case True
    then have "a' = a1" using R(1) by simp
    then show ?thesis using a1(2) True by simp
  next
    case False
    then show ?thesis using R(7) by simp
  qed
  show ?case using run R(2-6) a1(3,4) last by simp
qed

section \<open>A fresh allocator\<close>

lemma poolAllocator_new_fresh:
  assumes "poolAllocator_new sizeofT = Inr a0"
  shows "head a0 = invalidTag" "numPuddles a0 = 0" "uniqueCount a0 = 0"
    "heap a0 = (\<lambda>adr. None)" "32 \<le> unat (elmSize a0)"
proof -
  let ?es = "word_of_nat (RoundUp (16 + sizeofT) 16) :: 32 word"
  have a0: "a0 = \<lparr>elmSize = ?es, uniqueCount = 0, head = invalidTag, numPuddles = 0,
                  puddles = (\<lambda>i. 0), heap = (\<lambda>adr. None)\<rparr>" and ok: "32 \<le> sint ?es"
    using assms unfolding poolAllocator_new_eq by (simp_all split: if_splits)
  show "head a0 = invalidTag" "numPuddles a0 = 0" "uniqueCount a0 = 0" "heap a0 = (\<lambda>adr. None)"
    unfolding a0 by simp_all
  have "32 \<le>s ?es" using ok by (simp add: word_sle_eq)
  then show "32 \<le> unat (elmSize a0)" unfolding a0 using sle_unat by simp
qed

lemma poolAllocator_new_24: "poolAllocator_new 24 = Inr alloc48"
proof -
  have "RoundUp (16 + 24) 16 = 48" by (simp add: RoundUp_def)
  then show ?thesis by (simp add: poolAllocator_new_eq alloc48_def)
qed

section \<open>Capacity\<close>

text \<open>
  Claim C4. From a freshly constructed allocator whose stride is at most \<open>2 ^ 23\<close> bytes
  (so that the 32-bit offsets do not wrap), 65536 calls of \<^verbatim>\<open>Create\<close> in a row all
  return, whatever addresses the memory provider hands out; the puddle count is then
  256, and one more \<^verbatim>\<open>Create\<close> fails the assertion of \<^verbatim>\<open>allocPuddle\<close>.
\<close>

theorem capacity_65536:
  assumes "poolAllocator_new sizeofT = Inr a0" "unat (elmSize a0) \<le> 2 ^ 23"
  shows "\<exists>a live. run dbg memAlloc (replicate 65536 CallCreate) (a0, []) = Inr (a, live)
           \<and> length live = 65536 \<and> numPuddles a = 256
           \<and> Create memAlloc a = Inl AssertFailed"
proof -
  note f = poolAllocator_new_fresh[OF assms(1)]
  have pre: "numPuddles a0 = word_of_nat 0" "uniqueCount a0 = word_of_nat (256 * 0)"
    "0 + 256 \<le> (256::nat)" "0 < unat (elmSize a0)"
    using f by simp_all
  from run_puddles[OF f(1) pre assms(2), of dbg memAlloc "[]"] obtain a live where R:
    "run dbg memAlloc (replicate (256 * 256) CallCreate) (a0, []) = Inr (a, live)"
    "head a = invalidTag" "numPuddles a = word_of_nat (0 + 256)"
    "length live = length ([]::nat list) + 256 * 256"
    by blast
  have "numPuddles a = 256" using R(3) by simp
  then have "Create memAlloc a = Inl AssertFailed" using Create_full[OF R(2)] by simp
  then show ?thesis using R by simp
qed

theorem capacity_65536_witness:
  "poolAllocator_new 24 = Inr alloc48 \<and> unat (elmSize alloc48) \<le> 2 ^ 23
   \<and> (\<exists>a live. run False provider64k (replicate 65536 CallCreate) (alloc48, []) = Inr (a, live)
           \<and> length live = 65536 \<and> numPuddles a = 256
           \<and> Create provider64k a = Inl AssertFailed)"
proof -
  have s: "unat (elmSize alloc48) \<le> 2 ^ 23" by (simp add: alloc48_def)
  show ?thesis
    using capacity_65536[OF poolAllocator_new_24 s, of False provider64k]
      poolAllocator_new_24 s by blast
qed

section \<open>Destroying a block\<close>

lemma isOwned_block:
  assumes "puddles a i = base" "i < unat (numPuddles a)" "e < 256"
    "32 \<le> unat (elmSize a)" "unat (elmSize a) \<le> 2 ^ 23"
  shows "isOwned a (base + e * unat (elmSize a) + 16)"
proof -
  let ?s = "unat (elmSize a)"
  have "Suc e * ?s \<le> 256 * ?s" using assms(3) by (intro mult_le_mono1) simp
  then have "e * ?s + ?s \<le> 256 * ?s" by simp
  then have "e * ?s + 16 < 256 * ?s" using assms(4) by linarith
  then have "base + e * ?s + 16 < puddles a i + unat (256 * elmSize a)"
    using assms(1) byte_size_exact[OF assms(5)] by simp
  moreover have "puddles a i \<le> base + e * ?s + 16" using assms(1) by simp
  ultimately show ?thesis unfolding isOwned_iff using assms(2) by blast
qed

lemma Destroy_block:
  assumes "heap a b = Some n" "state n = used" "next n = invalidTag" "myTag n = tagOf p e c"
    "p < 256" "e < 256" "dbg \<longrightarrow> isOwned a (b + 16)"
  shows "Destroy dbg a (b + 16) =
           Inr (a\<lparr>uniqueCount := uniqueCount a + 1, head := tagOf p e (uniqueCount a + 1),
                  heap := (heap a)(b \<mapsto> \<lparr>next = head a, myTag = tagOf p e (uniqueCount a + 1),
                                          state = free\<rparr>)\<rparr>)"
proof -
  have st: "state n = init \<or> state n = used" using assms(2) by simp
  have "Destroy dbg a (b + 16) = push a b"
    using assms(7) by (auto simp: Destroy_def sizeof_node_def)
  then show ?thesis
    unfolding push_eq[OF assms(1) st assms(3)] assms(4) stamp_tagOf[OF assms(5,6)] .
qed

section \<open>The cycle of scenario S1\<close>

text \<open>
  Claim C5. For a \<^verbatim>\<open>TYPE\<close> of 24 bytes the constructor sets the stride 48. Three calls of
  \<^verbatim>\<open>Create\<close> return the objects of the blocks at offsets 0, 48 and 96 of puddle 0, in
  this order (an object lies 16 bytes behind the start of its block). After the middle
  object is destroyed, the next \<^verbatim>\<open>Create\<close> returns it again. This holds for every address
  the memory provider returns for puddle 0, with and without the debug checks.
\<close>

theorem cycle_three_blocks:
  "poolAllocator_new 24 = Inr alloc48 \<and> elmSize alloc48 = 48
   \<and> (\<exists>a1 a2 a3 a4 a5.
        Create memAlloc alloc48 = Inr (a1, memAlloc 0 + 0 + 16)
      \<and> Create memAlloc a1 = Inr (a2, memAlloc 0 + 48 + 16)
      \<and> Create memAlloc a2 = Inr (a3, memAlloc 0 + 96 + 16)
      \<and> puddles a3 0 = memAlloc 0
      \<and> Destroy dbg a3 (memAlloc 0 + 48 + 16) = Inr a4
      \<and> Create memAlloc a4 = Inr (a5, memAlloc 0 + 48 + 16)
      \<and> puddles a5 0 = memAlloc 0)"
proof -
  let ?B = "memAlloc 0"
  have es: "elmSize alloc48 = 48" by (simp add: alloc48_def)
  have f: "head alloc48 = invalidTag" "unat (numPuddles alloc48) = 0" "(0::nat) < 256"
    "0 < unat (elmSize alloc48)" "unat (elmSize alloc48) \<le> 2 ^ 23"
    "tagOf 0 255 (uniqueCount alloc48 + 1) \<noteq> invalidTag"
    using counter_guard[of 0] by (simp_all add: alloc48_def)
  from Create_grow[OF f, of memAlloc] obtain a1 where a1:
    "Create memAlloc alloc48 = Inr (a1, ?B + 16)" "serving ?B a1 0 1 256" "elmSize a1 = 48"
    by (auto simp: alloc48_def)
  have s1: "0 < unat (elmSize a1)" "unat (elmSize a1) \<le> 2 ^ 23" using a1(3) by simp_all
  have two: "Suc 1 = 2" and three: "Suc 2 = 3" by simp_all
  have lt: "(1::nat) < 256" "(2::nat) < 256" "(0::nat) < 256" by simp_all
  from Create_serving[OF a1(2) lt(1) lt(3) s1, of memAlloc] obtain a2 where a2':
    "Create memAlloc a1 = Inr (a2, ?B + 1 * unat (elmSize a1) + 16)" "serving ?B a2 0 (Suc 1) 256"
    "elmSize a2 = elmSize a1"
    by blast
  have a2: "Create memAlloc a1 = Inr (a2, ?B + 48 + 16)" "serving ?B a2 0 2 256" "elmSize a2 = 48"
    using a2'(1,3) a1(3) a2'(2)[unfolded two] by simp_all
  have s2: "0 < unat (elmSize a2)" "unat (elmSize a2) \<le> 2 ^ 23" using a2(3) by simp_all
  from Create_serving[OF a2(2) lt(2) lt(3) s2, of memAlloc] obtain a3 where a3':
    "Create memAlloc a2 = Inr (a3, ?B + 2 * unat (elmSize a2) + 16)" "serving ?B a3 0 (Suc 2) 256"
    "elmSize a3 = elmSize a2"
    by blast
  have a3: "Create memAlloc a2 = Inr (a3, ?B + 96 + 16)" "serving ?B a3 0 3 256" "elmSize a3 = 48"
    using a3'(1,3) a2(3) a3'(2)[unfolded three] by simp_all
  have base3: "puddles a3 0 = ?B" and np3: "numPuddles a3 = 1"
    using a3(2) by (simp_all add: serving_def)
  have node: "heap a3 (?B + 48) = Some \<lparr>next = invalidTag, myTag = tagOf 0 1 (256 - 1), state = used\<rparr>"
    using a3(2,3) unfolding serving_def by (auto dest: spec[of _ 1])
  have own: "dbg \<longrightarrow> isOwned a3 (?B + 48 + 16)"
    using isOwned_block[of a3 0 ?B 1] base3 np3 a3(3) by simp
  let ?t = "tagOf 0 1 (uniqueCount a3 + 1)"
  let ?a4 = "a3\<lparr>uniqueCount := uniqueCount a3 + 1, head := ?t,
                 heap := (heap a3)(?B + 48 \<mapsto> \<lparr>next = head a3, myTag = ?t, state = free\<rparr>)\<rparr>"
  have d: "Destroy dbg a3 (?B + 48 + 16) = Inr ?a4"
    using Destroy_block[OF node _ _ _ lt(3) lt(1) own] by simp
  have valid: "head ?a4 \<noteq> invalidTag"
    using tagOf_invalid[OF lt(3) lt(1), of "uniqueCount a3 + 1"] by auto
  have adr: "addressFromTag ?a4 (head ?a4) = ?B + 48"
    using addressFromTag_tagOf[OF lt(3) lt(1), of ?a4] base3 a3(3) by simp
  let ?n4 = "\<lparr>next = head a3, myTag = ?t, state = free\<rparr>"
  let ?a5 = "?a4\<lparr>head := next ?n4,
                  heap := (heap ?a4)(?B + 48 \<mapsto> ?n4\<lparr>next := invalidTag, state := used\<rparr>)\<rparr>"
  have n4: "heap ?a4 (?B + 48) = Some ?n4" by simp
  have a5: "pop ?a4 = Inr (?a5, Some (?B + 48))" "puddles ?a5 0 = ?B"
    using pop_take[OF valid adr n4] base3 by simp_all
  have c: "Create memAlloc ?a4 = Inr (?a5, ?B + 48 + 16)"
    using a5(1) by (simp add: Create_def sizeof_node_def)
  have c1: "Create memAlloc alloc48 = Inr (a1, ?B + 0 + 16)" using a1(1) by simp
  from c1 a2(1) a3(1) base3 d c a5(2)
  have "\<exists>a1 a2 a3 a4 a5.
        Create memAlloc alloc48 = Inr (a1, ?B + 0 + 16)
      \<and> Create memAlloc a1 = Inr (a2, ?B + 48 + 16)
      \<and> Create memAlloc a2 = Inr (a3, ?B + 96 + 16)
      \<and> puddles a3 0 = ?B
      \<and> Destroy dbg a3 (?B + 48 + 16) = Inr a4
      \<and> Create memAlloc a4 = Inr (a5, ?B + 48 + 16)
      \<and> puddles a5 0 = ?B"
    by blast
  then show ?thesis using poolAllocator_new_24 es by blast
qed

section \<open>A tag that equals the invalid tag\<close>

lemma serving_all_taken:
  assumes "serving base a 255 256 U"
  shows "all_taken a U"
proof -
  have "heap a (base + 255 * unat (elmSize a)) =
          Some \<lparr>next = invalidTag, myTag = tagOf 255 255 (U - word_of_nat 255), state = used\<rparr>"
    using assms unfolding serving_def by (auto dest: spec[of _ 255])
  moreover have "puddles a 255 = base" "head a = invalidTag" "uniqueCount a = U" "numPuddles a = 256"
    using assms by (simp_all add: serving_def)
  ultimately show ?thesis unfolding all_taken_def last_block_def by auto
qed

lemma last_block_owned:
  assumes "numPuddles a = 256" "32 \<le> unat (elmSize a)" "unat (elmSize a) \<le> 2 ^ 23"
  shows "isOwned a (last_block a + 16)"
  unfolding last_block_def
  using isOwned_block[of a 255 "puddles a 255" 255] assms by simp

lemma last_block_address:
  assumes "unat (elmSize a) \<le> 2 ^ 23"
  shows "addressFromTag a (tagOf 255 255 c) = last_block a"
  unfolding last_block_def
  using addressFromTag_tagOf[of 255 255 a c] offset_exact[of 255 "elmSize a"] assms by simp

lemma destroy_last_block:
  assumes "all_taken a U" "32 \<le> unat (elmSize a)" "unat (elmSize a) \<le> 2 ^ 23"
  shows "Destroy dbg a (last_block a + 16) =
           Inr (a\<lparr>uniqueCount := U + 1, head := tagOf 255 255 (U + 1),
                  heap := (heap a)(last_block a \<mapsto> \<lparr>next = invalidTag, myTag = tagOf 255 255 (U + 1),
                                          state = free\<rparr>)\<rparr>)"
proof -
  obtain c where n: "heap a (last_block a) = Some \<lparr>next = invalidTag, myTag = tagOf 255 255 c, state = used\<rparr>"
    using assms(1) unfolding all_taken_def by blast
  have f: "head a = invalidTag" "uniqueCount a = U" "numPuddles a = 256"
    using assms(1) by (simp_all add: all_taken_def)
  have own: "dbg \<longrightarrow> isOwned a (last_block a + 16)"
    using last_block_owned[OF f(3) assms(2,3)] by simp
  show ?thesis
    using Destroy_block[OF n _ _ _ _ _ own, of 255 255 c] f by simp
qed

lemma cycle_last_block:
  assumes "all_taken a U" "32 \<le> unat (elmSize a)" "unat (elmSize a) \<le> 2 ^ 23"
    "take_bit 16 (U + 1) \<noteq> 0xFFFF"
  shows "\<exists>a'. run dbg memAlloc [CallDestroy (last_block a + 16), CallCreate] (a, live)
                 = Inr (a', (last_block a + 16) # remove1 (last_block a + 16) live)
           \<and> all_taken a' (U + 1) \<and> elmSize a' = elmSize a \<and> last_block a' = last_block a"
proof -
  let ?b = "last_block a"
  let ?t = "tagOf 255 255 (U + 1)"
  let ?n1 = "\<lparr>next = invalidTag, myTag = ?t, state = free\<rparr>"
  let ?a1 = "a\<lparr>uniqueCount := U + 1, head := ?t, heap := (heap a)(?b \<mapsto> ?n1)\<rparr>"
  let ?a2 = "?a1\<lparr>head := next ?n1, heap := (heap ?a1)(?b \<mapsto> ?n1\<lparr>next := invalidTag, state := used\<rparr>)\<rparr>"
  have d: "Destroy dbg a (?b + 16) = Inr ?a1" by (rule destroy_last_block[OF assms(1-3)])
  have f: "numPuddles a = 256" using assms(1) by (simp add: all_taken_def)
  have valid: "head ?a1 \<noteq> invalidTag"
    using tagOf_invalid[of 255 255 "U + 1"] assms(4) by auto
  have lb: "last_block ?a1 = ?b" by (simp add: last_block_def)
  have adr: "addressFromTag ?a1 (head ?a1) = ?b"
    using last_block_address[of ?a1 "U + 1"] assms(3) lb by simp
  have n1: "heap ?a1 ?b = Some ?n1" by simp
  have p: "pop ?a1 = Inr (?a2, Some ?b)" by (rule pop_take[OF valid adr n1]) simp
  have c: "Create memAlloc ?a1 = Inr (?a2, ?b + 16)"
    using p by (simp add: Create_def sizeof_node_def)
  have r: "run dbg memAlloc [CallDestroy (?b + 16), CallCreate] (a, live)
             = Inr (?a2, (?b + 16) # remove1 (?b + 16) live)"
    using d c by simp
  have lb2: "last_block ?a2 = ?b" by (simp add: last_block_def)
  have "all_taken ?a2 (U + 1)"
    unfolding all_taken_def lb2 using f by auto
  then show ?thesis using r lb2 by auto
qed

subsection \<open>Cycling the last block until the counter is about to wrap\<close>

lemma generation_below_max:
  assumes "k < 65534"
  shows "take_bit 16 (word_of_nat (65536 + k) + 1 :: 32 word) \<noteq> 0xFFFF"
proof
  assume "take_bit 16 (word_of_nat (65536 + k) + 1 :: 32 word) = 0xFFFF"
  then have "unat (take_bit 16 (word_of_nat (65536 + k) + 1 :: 32 word)) = unat (0xFFFF :: 32 word)"
    by (simp only:)
  then have "unat (word_of_nat (65536 + k) + 1 :: 32 word) mod 65536 = 65535"
    by (simp only: unat_take16) simp
  moreover have "unat (word_of_nat (65536 + k) + 1 :: 32 word) = 65536 + k + 1"
    using assms by (simp add: unat_word_ariths unat_of_nat)
  ultimately have "(65536 + k + 1) mod 65536 = 65535"
    by (simp only:)
  moreover have "(65536 + k + 1) mod 65536 = (k + 1) mod 65536"
    by (simp only: add.assoc mod_add_self1)
  ultimately show False using assms by simp
qed

lemma cycles_last_block:
  assumes "all_taken a (word_of_nat (65536 + k))" "32 \<le> unat (elmSize a)" "unat (elmSize a) \<le> 2 ^ 23"
    "k + m \<le> 65534"
  shows "\<exists>a' L. run dbg memAlloc (concat (replicate m [CallDestroy (last_block a + 16), CallCreate])) (a, live)
                 = Inr (a', L)
           \<and> all_taken a' (word_of_nat (65536 + k + m)) \<and> elmSize a' = elmSize a
           \<and> last_block a' = last_block a \<and> (0 < m \<longrightarrow> last_block a + 16 \<in> set L)"
  using assms
proof (induction m arbitrary: a k live)
  case 0
  then show ?case by simp
next
  case (Suc m)
  let ?X = "last_block a + 16"
  have k: "k < 65534" using Suc.prems(4) by simp
  from cycle_last_block[OF Suc.prems(1,2,3) generation_below_max[OF k], of dbg memAlloc live]
  obtain a1 where a1:
    "run dbg memAlloc [CallDestroy ?X, CallCreate] (a, live) = Inr (a1, ?X # remove1 ?X live)"
    "all_taken a1 (word_of_nat (65536 + k) + 1)" "elmSize a1 = elmSize a" "last_block a1 = last_block a"
    by blast
  have t1: "all_taken a1 (word_of_nat (65536 + Suc k))" using a1(2) by (simp add: add.commute)
  have pre: "32 \<le> unat (elmSize a1)" "unat (elmSize a1) \<le> 2 ^ 23" "Suc k + m \<le> 65534"
    using Suc.prems a1(3) by simp_all
  from Suc.IH[OF t1 pre, of "?X # remove1 ?X live"] obtain a' L where R:
    "run dbg memAlloc (concat (replicate m [CallDestroy ?X, CallCreate])) (a1, ?X # remove1 ?X live) = Inr (a', L)"
    "all_taken a' (word_of_nat (65536 + Suc k + m))" "elmSize a' = elmSize a1"
    "last_block a' = last_block a1" "0 < m \<longrightarrow> ?X \<in> set L"
    unfolding a1(4) by blast
  have split: "concat (replicate (Suc m) [CallDestroy ?X, CallCreate])
                 = [CallDestroy ?X, CallCreate] @ concat (replicate m [CallDestroy ?X, CallCreate])"
    by simp
  have run: "run dbg memAlloc (concat (replicate (Suc m) [CallDestroy ?X, CallCreate])) (a, live) = Inr (a', L)"
    unfolding split run_append using a1(1) R(1) by simp
  have mem: "?X \<in> set L"
  proof (cases "m = 0")
    case True
    then have "L = ?X # remove1 ?X live" using R(1) by simp
    then show ?thesis by simp
  next
    case False
    then show ?thesis using R(5) by simp
  qed
  have eq: "65536 + Suc k + m = 65536 + k + Suc m" by simp
  have t': "all_taken a' (word_of_nat (65536 + k + Suc m))" using R(2)[unfolded eq] .
  have e': "elmSize a' = elmSize a" using R(3) a1(3) by simp
  have l': "last_block a' = last_block a" using R(4) a1(4) by simp
  have m': "0 < Suc m \<longrightarrow> ?X \<in> set L" using mem by simp
  from run t' e' l' m' show ?case by blast
qed

text \<open>
  Claim C9. On every constructed allocator (stride at most \<open>2 ^ 23\<close> bytes, any memory
  provider) some sequence of calls leads to a state in which the object of the block
  with puddle index 255 and element index 255 is live. Destroying that object returns;
  its \<^verbatim>\<open>push\<close> increments the counter to a value whose low 16 bits are \<open>0xFFFF\<close>, the
  tag written into the block and installed as head is \<open>0xFFFFFFFF\<close>, the invalid tag,
  and \<^verbatim>\<open>pop\<close> then returns the null pointer although the block is in state \<open>free\<close>.
\<close>

theorem sentinel_collision:
  assumes "poolAllocator_new sizeofT = Inr a0" "unat (elmSize a0) \<le> 2 ^ 23"
  shows "\<exists>calls a live a'.
           run dbg memAlloc calls (a0, []) = Inr (a, live)
         \<and> last_block a + 16 \<in> set live
         \<and> (\<exists>n. heap a (last_block a) = Some n \<and> state n = used
                \<and> take_bit 8 (myTag n) = 255 \<and> take_bit 8 (drop_bit 8 (myTag n)) = 255)
         \<and> Destroy dbg a (last_block a + 16) = Inr a'
         \<and> uniqueCount a' = uniqueCount a + 1 \<and> take_bit 16 (uniqueCount a') = 0xFFFF
         \<and> heap a' (last_block a) = Some \<lparr>next = invalidTag, myTag = 0xFFFFFFFF, state = free\<rparr>
         \<and> head a' = 0xFFFFFFFF
         \<and> pop a' = Inr (a', None)"
proof -
  let ?cyc = "\<lambda>a. concat (replicate 65534 [CallDestroy (last_block a + 16), CallCreate])"
  note f = poolAllocator_new_fresh[OF assms(1)]
  have pre: "numPuddles a0 = word_of_nat 0" "uniqueCount a0 = word_of_nat (256 * 0)"
    "0 + 256 \<le> (256::nat)" "0 < unat (elmSize a0)"
    using f by simp_all
  from run_puddles[OF f(1) pre assms(2), of dbg memAlloc "[]"] obtain a1 L1 where a1:
    "run dbg memAlloc (replicate (256 * 256) CallCreate) (a0, []) = Inr (a1, L1)"
    "elmSize a1 = elmSize a0"
    "serving (memAlloc (0 + 256 - 1)) a1 (0 + 256 - 1) 256 (word_of_nat (256 * (0 + 256)))"
    by auto
  have t1: "all_taken a1 (word_of_nat (65536 + 0))"
    using serving_all_taken[of "memAlloc 255" a1] a1(3) by simp
  have s1: "32 \<le> unat (elmSize a1)" "unat (elmSize a1) \<le> 2 ^ 23" "0 + 65534 \<le> (65534::nat)"
    using f(5) assms(2) a1(2) by simp_all
  from cycles_last_block[OF t1 s1, of dbg memAlloc L1] obtain a L where a:
    "run dbg memAlloc (?cyc a1) (a1, L1) = Inr (a, L)"
    "all_taken a (word_of_nat (65536 + 0 + 65534))" "elmSize a = elmSize a1"
    "last_block a = last_block a1" "last_block a1 + 16 \<in> set L"
    by auto
  have run: "run dbg memAlloc (replicate (256 * 256) CallCreate @ ?cyc a1) (a0, []) = Inr (a, L)"
    unfolding run_append using a1(1) a(1) by simp
  have U: "uniqueCount a = 131070" and hd: "head a = invalidTag"
    using a(2) by (simp_all add: all_taken_def)
  obtain c where n: "heap a (last_block a) = Some \<lparr>next = invalidTag, myTag = tagOf 255 255 c, state = used\<rparr>"
    using a(2) unfolding all_taken_def by blast
  have idx: "take_bit 8 (tagOf 255 255 c) = 255" "take_bit 8 (drop_bit 8 (tagOf 255 255 c)) = 255"
    using tagOf_elmIndex[of 255 255 c] tagOf_puddleIndex[of 255 255 c] by simp_all
  have s: "32 \<le> unat (elmSize a)" "unat (elmSize a) \<le> 2 ^ 23" using s1 a(3) by simp_all
  have tag: "tagOf 255 255 131071 = invalidTag"
    by (rule tagOf_sentinel) simp
  let ?a' = "a\<lparr>uniqueCount := 131070 + 1, head := invalidTag,
                heap := (heap a)(last_block a \<mapsto> \<lparr>next = invalidTag, myTag = invalidTag, state = free\<rparr>)\<rparr>"
  have d: "Destroy dbg a (last_block a + 16) = Inr ?a'"
    using destroy_last_block[OF a(2) s, of dbg] by (simp add: tag)
  have h': "heap ?a' (last_block a) = Some \<lparr>next = invalidTag, myTag = 0xFFFFFFFF, state = free\<rparr>"
    "head ?a' = 0xFFFFFFFF"
    by (simp_all add: invalidTag_def)
  have gen: "uniqueCount ?a' = uniqueCount a + 1" "take_bit 16 (uniqueCount ?a') = 0xFFFF"
    unfolding U by simp_all
  have p: "pop ?a' = Inr (?a', None)" by (rule pop_empty) simp
  have live: "last_block a + 16 \<in> set L" using a(4,5) by simp
  have node: "\<exists>n. heap a (last_block a) = Some n \<and> state n = used
                \<and> take_bit 8 (myTag n) = 255 \<and> take_bit 8 (drop_bit 8 (myTag n)) = 255"
    using n idx by simp
  from run live node d gen h' p show ?thesis by blast
qed

theorem sentinel_collision_witness:
  "poolAllocator_new 24 = Inr alloc48 \<and> unat (elmSize alloc48) \<le> 2 ^ 23
   \<and> (\<exists>calls a live a'.
           run True provider64k calls (alloc48, []) = Inr (a, live)
         \<and> last_block a + 16 \<in> set live
         \<and> Destroy True a (last_block a + 16) = Inr a'
         \<and> take_bit 16 (uniqueCount a') = 0xFFFF
         \<and> heap a' (last_block a) = Some \<lparr>next = invalidTag, myTag = 0xFFFFFFFF, state = free\<rparr>
         \<and> head a' = 0xFFFFFFFF
         \<and> pop a' = Inr (a', None))"
proof -
  have s: "unat (elmSize alloc48) \<le> 2 ^ 23" by (simp add: alloc48_def)
  show ?thesis
    using sentinel_collision[OF poolAllocator_new_24 s, of True provider64k]
      poolAllocator_new_24 s by blast
qed

section \<open>Live objects\<close>


lemma pop_None: "pop a = Inr (a', None) \<Longrightarrow> a' = a \<and> head a = invalidTag"
  by (auto simp: pop_def Let_def split: option.splits if_splits)

lemma pop_Some:
  assumes "pop a = Inr (a', Some adr)"
  shows "\<exists>n. heap a adr = Some n \<and> state n = free
           \<and> a' = a\<lparr>head := next n, heap := (heap a)(adr \<mapsto> n\<lparr>next := invalidTag, state := used\<rparr>)\<rparr>"
proof -
  have "addressFromTag (a\<lparr>head := h\<rparr>) t = addressFromTag a t" for h t
    by (simp add: addressFromTag_def)
  then show ?thesis
    using assms by (auto simp: pop_def Let_def split: option.splits if_splits)
qed


subsection \<open>A new puddle leaves the live objects alone\<close>





subsection \<open>Destroy, Create and whole executions\<close>

lemma push_Some:
  assumes "push a b = Inr a'"
  shows "\<exists>n t. heap a b = Some n \<and> (state n = init \<or> state n = used)
           \<and> a' = a\<lparr>uniqueCount := uniqueCount a + 1, head := t,
                      heap := (heap a)(b \<mapsto> \<lparr>next = head a, myTag = t, state = free\<rparr>)\<rparr>"
proof -
  obtain n where n: "heap a b = Some n" "state n = init \<or> state n = used" "next n = invalidTag"
    using assms by (auto simp: push_def split: option.splits if_splits)
  show ?thesis using assms n(1,2) unfolding push_eq[OF n] by blast
qed




subsection \<open>Distinctness and position of the live objects\<close>





section \<open>The calls of push\<close>

lemma links_ok_push:
  assumes "links_ok a" "push a b = Inr a'"
  shows "links_ok a'"
proof -
  from push_Some[OF assms(2)] obtain t where
    a': "a' = a\<lparr>uniqueCount := uniqueCount a + 1, head := t,
                 heap := (heap a)(b \<mapsto> \<lparr>next = head a, myTag = t, state = free\<rparr>)\<rparr>"
    by blast
  show ?thesis using assms(1) unfolding links_ok_def a' by auto
qed

lemma links_ok_pop:
  assumes "links_ok a" "pop a = Inr (a', r)"
  shows "links_ok a'"
proof (cases r)
  case None
  then show ?thesis using pop_None[of a a'] assms by simp
next
  case (Some adr)
  from pop_Some[of a a' adr] assms(2) Some obtain n where
    a': "a' = a\<lparr>head := next n, heap := (heap a)(adr \<mapsto> n\<lparr>next := invalidTag, state := used\<rparr>)\<rparr>"
    by blast
  show ?thesis using assms(1) unfolding links_ok_def a' by auto
qed

lemma links_ok_header:
  assumes "links_ok a"
  shows "links_ok (a\<lparr>heap := (heap a)(ptr \<mapsto> \<lparr>next = invalidTag, myTag = t, state = init\<rparr>)\<rparr>)"
  using assms unfolding links_ok_def by auto

lemma links_ok_populate:
  assumes "links_ok a" "populate a p n = Inr a'"
  shows "links_ok a'"
  using assms
proof (induction n arbitrary: a)
  case 0
  then show ?case by simp
next
  case (Suc n)
  let ?ptr = "puddles a (unat p) + unat (word_of_nat n * elmSize a)"
  let ?a1 = "a\<lparr>heap := (heap a)(?ptr \<mapsto> \<lparr>next = invalidTag,
                   myTag = push_bit 8 p OR word_of_nat n, state = init\<rparr>)\<rparr>"
  obtain a2 where a2: "push ?a1 ?ptr = Inr a2" and rest: "populate a2 p n = Inr a'"
    using Suc.prems(2) by (cases "push ?a1 ?ptr") (simp_all add: Let_def)
  have "links_ok ?a1" by (rule links_ok_header[OF Suc.prems(1)])
  then have "links_ok a2" using a2 by (rule links_ok_push)
  then show ?case using rest by (rule Suc.IH)
qed

lemma links_ok_allocPuddle:
  assumes "links_ok a" "allocPuddle memAlloc a = Inr a'"
  shows "links_ok a'"
proof -
  let ?a3 = "a\<lparr>numPuddles := numPuddles a + 1,
               puddles := (puddles a)(unat (numPuddles a) := memAlloc (unat (numPuddles a))),
               heap := memClear (heap a) (memAlloc (unat (numPuddles a))) (unat (NumPuddleElements * elmSize a))\<rparr>"
  have p: "populate ?a3 (numPuddles a) (unat NumPuddleElements) = Inr a'"
    using assms(2) by (simp add: allocPuddle_def Let_def split: if_splits)
  have "links_ok ?a3"
    using assms(1) unfolding links_ok_def memClear_def by (auto split: if_splits)
  then show ?thesis using p by (rule links_ok_populate)
qed

lemma links_ok_Create:
  assumes "links_ok a" "Create memAlloc a = Inr (a', q)"
  shows "links_ok a'"
proof (cases "pop a")
  case (Inl e)
  then show ?thesis using assms(2) by (simp add: Create_def)
next
  case (Inr r)
  obtain a1 res where r: "r = (a1, res)" by (cases r)
  have l1: "links_ok a1" using links_ok_pop[OF assms(1)] Inr r by simp
  show ?thesis
  proof (cases res)
    case (Some adr)
    then have "a' = a1" using assms(2) Inr r by (simp add: Create_def)
    then show ?thesis using l1 by simp
  next
    case None
    obtain a2 where a2: "allocPuddle memAlloc a1 = Inr a2"
      using assms(2) Inr r None by (cases "allocPuddle memAlloc a1") (simp_all add: Create_def)
    have l2: "links_ok a2" by (rule links_ok_allocPuddle[OF l1 a2])
    obtain res2 where "pop a2 = Inr (a', res2)"
    proof (cases "pop a2")
      case (Inl e)
      then show ?thesis using assms(2) \<open>pop a = Inr r\<close> r None a2 by (simp add: Create_def)
    next
      case (Inr r2)
      obtain a3 res2 where r2: "r2 = (a3, res2)" by (cases r2)
      show ?thesis
        using assms(2) \<open>pop a = Inr r\<close> r None a2 Inr r2 that
        by (cases res2) (auto simp: Create_def)
    qed
    then show ?thesis using links_ok_pop[OF l2] by simp
  qed
qed

lemma links_ok_Destroy:
  assumes "links_ok a" "Destroy dbg a q = Inr a'"
  shows "links_ok a'"
proof -
  have "push a (q - sizeof_node) = Inr a'"
    using assms(2) by (auto simp: Destroy_def split: if_splits)
  then show ?thesis using assms(1) links_ok_push by blast
qed

lemma links_ok_run:
  assumes "links_ok a" "run dbg memAlloc calls (a, live) = Inr (a', live')"
  shows "links_ok a'"
  using assms
proof (induction calls arbitrary: a live)
  case Nil
  then show ?case by simp
next
  case (Cons c calls)
  show ?case
  proof (cases c)
    case CallCreate
    obtain a1 q where c1: "Create memAlloc a = Inr (a1, q)"
      and r: "run dbg memAlloc calls (a1, q # live) = Inr (a', live')"
      using Cons.prems(2) CallCreate by (cases "Create memAlloc a") auto
    show ?thesis using Cons.IH[OF links_ok_Create[OF Cons.prems(1) c1] r] .
  next
    case (CallDestroy q)
    obtain a1 where d1: "Destroy dbg a q = Inr a1"
      and r: "run dbg memAlloc calls (a1, remove1 q live) = Inr (a', live')"
      using Cons.prems(2) CallDestroy by (cases "Destroy dbg a q") auto
    show ?thesis using Cons.IH[OF links_ok_Destroy[OF Cons.prems(1) d1] r] .
  qed
qed

lemma links_ok_fresh:
  assumes "poolAllocator_new sizeofT = Inr a0"
  shows "links_ok a0"
  using poolAllocator_new_fresh(4)[OF assms] by (simp add: links_ok_def)

text \<open>
  Claim C1. \<^verbatim>\<open>push\<close> is private and has two callers. \<^verbatim>\<open>Destroy\<close> calls it in a state
  that a sequence of calls of \<^verbatim>\<open>Create\<close> and \<^verbatim>\<open>Destroy\<close> has reached from a constructed
  allocator: there, on every block in state \<open>init\<close> or \<open>used\<close>, \<^verbatim>\<open>push\<close> returns, having
  incremented the counter, given the block the tag made of the low 16 bits of its old
  tag and, in the high 16 bits, the low 16 bits of the counter as incremented, set its state to
  \<open>free\<close>, stored the old head as its link and made the new tag the head.
  \<^verbatim>\<open>allocPuddle\<close> calls it on the header it has just written, in state \<open>init\<close>, whatever
  the rest of the allocator is: the effect is the same.
\<close>

theorem push_effect:
  "(poolAllocator_new sizeofT = Inr a0 \<and> run dbg memAlloc calls (a0, []) = Inr (a, live)
      \<and> heap a b = Some n \<and> (state n = init \<or> state n = used) \<longrightarrow>
      push a b = Inr (a\<lparr>uniqueCount := uniqueCount a + 1,
             head := take_bit 16 (myTag n) OR push_bit 16 (take_bit 16 (uniqueCount a + 1)),
             heap := (heap a)(b \<mapsto> \<lparr>next = head a,
                        myTag = take_bit 16 (myTag n) OR push_bit 16 (take_bit 16 (uniqueCount a + 1)),
                        state = free\<rparr>)\<rparr>))
   \<and> push (c\<lparr>heap := (heap c)(ptr \<mapsto> \<lparr>next = invalidTag, myTag = t, state = init\<rparr>)\<rparr>) ptr =
       Inr (c\<lparr>uniqueCount := uniqueCount c + 1,
             head := take_bit 16 t OR push_bit 16 (take_bit 16 (uniqueCount c + 1)),
             heap := (heap c)(ptr \<mapsto> \<lparr>next = head c,
                        myTag = take_bit 16 t OR push_bit 16 (take_bit 16 (uniqueCount c + 1)),
                        state = free\<rparr>)\<rparr>)
   \<and> take_bit 16 (take_bit 16 (myTag n) OR push_bit 16 (take_bit 16 (uniqueCount a + 1))) = take_bit 16 (myTag n)
   \<and> drop_bit 16 (take_bit 16 (myTag n) OR push_bit 16 (take_bit 16 (uniqueCount a + 1))) = take_bit 16 (uniqueCount a + 1)"
proof -
  let ?T = "take_bit 16 (myTag n) OR push_bit 16 (take_bit 16 (uniqueCount a + 1))"
  have 1: "push a b = Inr (a\<lparr>uniqueCount := uniqueCount a + 1, head := ?T,
             heap := (heap a)(b \<mapsto> \<lparr>next = head a, myTag = ?T, state = free\<rparr>)\<rparr>)"
    if h: "poolAllocator_new sizeofT = Inr a0 \<and> run dbg memAlloc calls (a0, []) = Inr (a, live)
      \<and> heap a b = Some n \<and> (state n = init \<or> state n = used)"
  proof -
    have "links_ok a" using links_ok_run[OF links_ok_fresh] h by blast
    then have nx: "next n = invalidTag" using h unfolding links_ok_def by auto
    show ?thesis using push_eq[of a b n] h nx by blast
  qed
  let ?c1 = "c\<lparr>heap := (heap c)(ptr \<mapsto> \<lparr>next = invalidTag, myTag = t, state = init\<rparr>)\<rparr>"
  have 2: "push ?c1 ptr =
       Inr (c\<lparr>uniqueCount := uniqueCount c + 1,
             head := take_bit 16 t OR push_bit 16 (take_bit 16 (uniqueCount c + 1)),
             heap := (heap c)(ptr \<mapsto> \<lparr>next = head c,
                        myTag = take_bit 16 t OR push_bit 16 (take_bit 16 (uniqueCount c + 1)),
                        state = free\<rparr>)\<rparr>)"
    using push_eq[of ?c1 ptr "\<lparr>next = invalidTag, myTag = t, state = init\<rparr>"] by simp
  from 1 2 stamp_low16[of "myTag n"] stamp_high16[of "myTag n"] show ?thesis by blast
qed

theorem push_effect_witness:
  "poolAllocator_new 24 = Inr alloc48
   \<and> (\<exists>a n. run True provider64k [CallCreate] (alloc48, []) = Inr (a, [65552])
         \<and> heap a 65536 = Some n \<and> state n = used \<and> myTag n = 0x01000000
         \<and> uniqueCount a = 256 \<and> head a = 0x00FF0001
         \<and> push a 65536 = Inr (a\<lparr>uniqueCount := 257, head := 0x01010000,
               heap := (heap a)(65536 \<mapsto> \<lparr>next = 0x00FF0001, myTag = 0x01010000, state = free\<rparr>)\<rparr>))"
proof -
  have f: "head alloc48 = invalidTag" "unat (numPuddles alloc48) = 0" "(0::nat) < 256"
    "0 < unat (elmSize alloc48)" "unat (elmSize alloc48) \<le> 2 ^ 23"
    "tagOf 0 255 (uniqueCount alloc48 + 1) \<noteq> invalidTag"
    using counter_guard[of 0] by (simp_all add: alloc48_def)
  from Create_grow[OF f, of provider64k] obtain a1 where a1:
    "Create provider64k alloc48 = Inr (a1, 65552)" "serving 65536 a1 0 1 256" "elmSize a1 = 48"
    by (auto simp: alloc48_def provider64k_def)
  have r: "run True provider64k [CallCreate] (alloc48, []) = Inr (a1, [65552])"
    using a1(1) by simp
  let ?n = "\<lparr>next = invalidTag, myTag = 0x01000000 :: 32 word, state = used\<rparr>"
  have u: "uniqueCount a1 = 256" using a1(2) by (simp add: serving_def)
  have hd: "head a1 = 0x00FF0001" using a1(2) by (simp add: serving_def tagOf_def)
  have "heap a1 (65536 + 0 * unat (elmSize a1)) =
          Some \<lparr>next = invalidTag, myTag = tagOf 0 0 (256 - word_of_nat 0), state = used\<rparr>"
    using a1(2) unfolding serving_def by blast
  then have h: "heap a1 65536 = Some ?n" by (simp add: tagOf_def)
  have p: "push a1 65536 = Inr (a1\<lparr>uniqueCount := 257, head := 0x01010000,
               heap := (heap a1)(65536 \<mapsto> \<lparr>next = 0x00FF0001, myTag = 0x01010000, state = free\<rparr>)\<rparr>)"
    using push_effect[of 24 alloc48 True provider64k "[CallCreate]" a1 "[65552]" 65536 ?n]
      poolAllocator_new_24 r h u hd by simp
  show ?thesis using poolAllocator_new_24 r h u hd p by auto
qed

end
